theory Spec2Isabelle
  imports Complex_Main "HOL-Library.Sublist"
begin

section \<open>ClipFlow AI: markers, segments, slicing and export\<close>

text \<open>
  A shallow embedding of \<^verbatim>\<open>backend/app/core/slicer.py\<close>, \<^verbatim>\<open>marker.py\<close>,
  \<^verbatim>\<open>exporter.py\<close> and of the data classes of \<^verbatim>\<open>backend/app/models/schemas.py\<close>.

  Modelling decisions, used throughout:
  \<^item> Python \<^verbatim>\<open>float\<close> values (seconds, scores) are real numbers: \<open>+\<close>, \<open>-\<close>, \<open>*\<close>,
    \<open>max\<close>, \<open>min\<close> and the comparisons are exact. Binary rounding error of IEEE doubles
    is outside the model.
  \<^item> Python \<^verbatim>\<open>str\<close> is \<open>string\<close>; case mapping and white space are those of ASCII.
  \<^item> The default factory of \<^verbatim>\<open>Segment.id\<close> draws a random identifier. The slicers
    take the supply of identifiers as a parameter \<open>ids\<close>: the segment created when \<open>n\<close>
    segments have been accepted so far gets \<open>ids n\<close>.
\<close>

subsection \<open>Data model (schemas.py)\<close>

datatype MarkerType = NG | OK | START | END

record TranscriptWord =
  tw_word :: string
  tw_start :: real
  tw_end :: real
  tw_confidence :: real

record TranscriptSegment =
  ts_text :: string
  ts_start :: real
  ts_end :: real
  ts_words :: "TranscriptWord list"

record Marker =
  m_type :: MarkerType
  m_word :: string
  m_start :: real
  m_end :: real
  m_confidence :: real

record Segment =
  seg_id :: string
  seg_type :: string
  seg_start :: real
  seg_end :: real
  trigger_marker :: "Marker option"
  enabled :: bool
  manual_adjusted :: bool

text \<open>
  \<^verbatim>\<open>Segment(start=a, end=b, type="keep", trigger_marker=t)\<close>: the fields not given
  take the defaults of the class (\<^verbatim>\<open>enabled=True\<close>, \<^verbatim>\<open>manual_adjusted=False\<close>).
\<close>

definition new_segment :: "string \<Rightarrow> real \<Rightarrow> real \<Rightarrow> Marker option \<Rightarrow> Segment" where
  "new_segment i a b t =
     \<lparr>seg_id = i, seg_type = ''keep'', seg_start = a, seg_end = b,
      trigger_marker = t, enabled = True, manual_adjusted = False\<rparr>"

subsection \<open>Python's rounding\<close>

text \<open>
  \<^verbatim>\<open>round(x)\<close> rounds to the nearest integer, a tie to the even neighbour;
  \<^verbatim>\<open>round(x, 3)\<close> does the same at the third decimal.
\<close>

definition py_round :: "real \<Rightarrow> int" where
  "py_round x =
     (let f = \<lfloor>x\<rfloor>; d = x - of_int f
      in if d < 1 / 2 then f else if 1 / 2 < d then f + 1 else if even f then f else f + 1)"

definition round3 :: "real \<Rightarrow> real" where
  "round3 x = of_int (py_round (x * 1000)) / 1000"

subsection \<open>The overlap-merge pass (slicer.py, \_merge\_overlapping)\<close>

text \<open>
  The loop keeps a list \<^verbatim>\<open>merged\<close> that is never empty and only ever reads and
  updates its last element. The model carries \<^verbatim>\<open>merged\<close> as its prefix \<open>front\<close> and
  its last element \<open>lastseg\<close>, that is \<^verbatim>\<open>merged = front + [lastseg]\<close>.
  \<^verbatim>\<open>last.end = max(last.end, seg.end)\<close> assigns to the object in place; the model
  updates the value. The segments the slicers pass in are fresh objects, so no other
  position of the list shares the object that is updated.
\<close>

fun merge_loop :: "Segment list \<Rightarrow> Segment \<Rightarrow> Segment list \<Rightarrow> Segment list" where
  "merge_loop front lastseg [] = front @ [lastseg]"
| "merge_loop front lastseg (seg # rest) =
     (if seg_start seg \<le> seg_end lastseg + 0.05
      then merge_loop front (lastseg\<lparr>seg_end := max (seg_end lastseg) (seg_end seg)\<rparr>) rest
      else merge_loop (front @ [lastseg]) seg rest)"

definition merge_overlapping :: "Segment list \<Rightarrow> Segment list" where
  "merge_overlapping segments =
     (if segments = [] then segments
      else (case sort_key seg_start segments of
              [] \<Rightarrow> []
            | first # rest \<Rightarrow> merge_loop [] first rest))"

subsection \<open>Backtrack slicing (slicer.py, slice\_backtrack)\<close>

text \<open>
  \<open>backtrack_step\<close> is the body of \<^verbatim>\<open>for ok in ok_markers\<close>, with the list
  \<^verbatim>\<open>segments\<close> built so far as the state; \<open>backtrack_loop\<close> is the loop.
  \<^verbatim>\<open>preceding_ngs[-1]\<close> and \<^verbatim>\<open>segments[-1]\<close> are read only where the source has
  tested the list to be non-empty.
\<close>

definition backtrack_step ::
  "(nat \<Rightarrow> string) \<Rightarrow> Marker list \<Rightarrow> real \<Rightarrow> real \<Rightarrow> real \<Rightarrow>
   Segment list \<Rightarrow> Marker \<Rightarrow> Segment list" where
  "backtrack_step ids ng_markers total_duration pre_buffer post_buffer segments ok =
     (let preceding_ngs = filter (\<lambda>ng. m_end ng < m_start ok) ng_markers;
          start0 = (if preceding_ngs \<noteq> [] then max 0 (m_end (last preceding_ngs) + post_buffer)
                    else if segments \<noteq> [] then seg_end (last segments)
                    else 0);
          end0 = min total_duration (m_start ok - pre_buffer);
          start1 = max 0 (start0 - pre_buffer);
          end1 = min total_duration (end0 + post_buffer)
      in if end1 > start1 + 0.1
         then segments @
              [new_segment (ids (length segments)) (round3 start1) (round3 end1) (Some ok)]
         else segments)"

fun backtrack_loop ::
  "(nat \<Rightarrow> string) \<Rightarrow> Marker list \<Rightarrow> real \<Rightarrow> real \<Rightarrow> real \<Rightarrow>
   Segment list \<Rightarrow> Marker list \<Rightarrow> Segment list" where
  "backtrack_loop ids ng_markers total_duration pre_buffer post_buffer segments [] = segments"
| "backtrack_loop ids ng_markers total_duration pre_buffer post_buffer segments (ok # oks) =
     backtrack_loop ids ng_markers total_duration pre_buffer post_buffer
       (backtrack_step ids ng_markers total_duration pre_buffer post_buffer segments ok) oks"

text \<open>The parameter \<open>transcript\<close> is part of the signature and is never read.\<close>

definition slice_backtrack ::
  "(nat \<Rightarrow> string) \<Rightarrow> Marker list \<Rightarrow> TranscriptSegment list \<Rightarrow> real \<Rightarrow> real \<Rightarrow> real \<Rightarrow>
   Segment list" where
  "slice_backtrack ids markers transcript total_duration pre_buffer post_buffer =
     (let ok_markers = filter (\<lambda>m. m_type m = OK) markers;
          ng_markers = filter (\<lambda>m. m_type m = NG) markers
      in if ok_markers = []
         then (if total_duration > 0 then [new_segment (ids 0) 0 total_duration None] else [])
         else merge_overlapping
                (backtrack_loop ids ng_markers total_duration pre_buffer post_buffer [] ok_markers))"

subsection \<open>Interval slicing (slicer.py, slice\_interval)\<close>

text \<open>
  The pair \<^verbatim>\<open>(seg_start, seg_end)\<close> that the loop body computes for one START marker,
  before the length test and the rounding.
\<close>

definition interval_candidate ::
  "Marker list \<Rightarrow> Marker list \<Rightarrow> real \<Rightarrow> real \<Rightarrow> real \<Rightarrow> Marker \<Rightarrow> real \<times> real" where
  "interval_candidate start_markers end_markers total_duration pre_buffer post_buffer start_m =
     (case filter (\<lambda>e. m_start e > m_end start_m) end_markers of
        end_m # _ \<Rightarrow>
          (max 0 (m_end start_m + post_buffer - pre_buffer),
           min total_duration (m_start end_m - post_buffer + post_buffer))
      | [] \<Rightarrow>
          (let cand_end =
                 (case filter (\<lambda>s. m_start s > m_end start_m) start_markers of
                    s # _ \<Rightarrow> m_start s
                  | [] \<Rightarrow> total_duration)
           in (max 0 (m_end start_m + post_buffer - pre_buffer), cand_end)))"

definition interval_step ::
  "(nat \<Rightarrow> string) \<Rightarrow> Marker list \<Rightarrow> Marker list \<Rightarrow> real \<Rightarrow> real \<Rightarrow> real \<Rightarrow>
   Segment list \<Rightarrow> Marker \<Rightarrow> Segment list" where
  "interval_step ids start_markers end_markers total_duration pre_buffer post_buffer segments
     start_m =
     (let c = interval_candidate start_markers end_markers total_duration pre_buffer post_buffer
                start_m
      in if snd c > fst c + 0.1
         then segments @
              [new_segment (ids (length segments)) (round3 (fst c)) (round3 (snd c))
                 (Some start_m)]
         else segments)"

fun interval_loop ::
  "(nat \<Rightarrow> string) \<Rightarrow> Marker list \<Rightarrow> Marker list \<Rightarrow> real \<Rightarrow> real \<Rightarrow> real \<Rightarrow>
   Segment list \<Rightarrow> Marker list \<Rightarrow> Segment list" where
  "interval_loop ids start_markers end_markers total_duration pre_buffer post_buffer segments [] =
     segments"
| "interval_loop ids start_markers end_markers total_duration pre_buffer post_buffer segments
     (start_m # rest) =
     interval_loop ids start_markers end_markers total_duration pre_buffer post_buffer
       (interval_step ids start_markers end_markers total_duration pre_buffer post_buffer
          segments start_m) rest"

definition slice_interval ::
  "(nat \<Rightarrow> string) \<Rightarrow> Marker list \<Rightarrow> TranscriptSegment list \<Rightarrow> real \<Rightarrow> real \<Rightarrow> real \<Rightarrow>
   Segment list" where
  "slice_interval ids markers transcript total_duration pre_buffer post_buffer =
     (let start_markers = filter (\<lambda>m. m_type m = START) markers;
          end_markers = filter (\<lambda>m. m_type m = END) markers
      in if start_markers = [] then []
         else merge_overlapping
                (interval_loop ids start_markers end_markers total_duration pre_buffer post_buffer
                   [] start_markers))"

text \<open>
  What the interval slicer is to compute, in the words of its description.
  \<open>nearest_following t ms m\<close>: among the markers of \<open>ms\<close> that start after time \<open>t\<close>,
  \<open>m\<close> is one that starts first. \<open>interval_end_spec\<close>: the end of the candidate for
  a START marker is the start of the nearest following END marker, capped at the total
  duration; without such an END marker it is the start of the nearest following START
  marker, and without that the total duration. \<open>interval_kept\<close>: the candidates longer
  than 0.1 s, in the order of their START markers, as segments with both bounds rounded
  to three decimals.
\<close>

definition nearest_following :: "real \<Rightarrow> Marker list \<Rightarrow> Marker \<Rightarrow> bool" where
  "nearest_following t ms m \<longleftrightarrow>
     m \<in> set ms \<and> t < m_start m \<and> (\<forall>e \<in> set ms. t < m_start e \<longrightarrow> m_start m \<le> m_start e)"

definition interval_end_spec :: "Marker list \<Rightarrow> Marker list \<Rightarrow> real \<Rightarrow> Marker \<Rightarrow> real \<Rightarrow> bool" where
  "interval_end_spec start_markers end_markers total_duration start_m cand_end \<longleftrightarrow>
     (if \<exists>e \<in> set end_markers. m_end start_m < m_start e
      then \<exists>end_m. nearest_following (m_end start_m) end_markers end_m \<and>
                   cand_end = min total_duration (m_start end_m)
      else if \<exists>s \<in> set start_markers. m_end start_m < m_start s
      then \<exists>s. nearest_following (m_end start_m) start_markers s \<and> cand_end = m_start s
      else cand_end = total_duration)"

definition interval_kept ::
  "(nat \<Rightarrow> string) \<Rightarrow> Marker list \<Rightarrow> Marker list \<Rightarrow> real \<Rightarrow> real \<Rightarrow> real \<Rightarrow> nat \<Rightarrow>
   Marker list \<Rightarrow> Segment list" where
  "interval_kept ids start_markers end_markers total_duration pre_buffer post_buffer n ms =
     map (\<lambda>(i, m).
            let c = interval_candidate start_markers end_markers total_duration pre_buffer
                      post_buffer m
            in new_segment (ids i) (round3 (fst c)) (round3 (snd c)) (Some m))
       (enumerate n
          (filter (\<lambda>m. let c = interval_candidate start_markers end_markers total_duration
                                 pre_buffer post_buffer m
                        in snd c > fst c + 0.1) ms))"

subsection \<open>Strings\<close>

text \<open>
  \<^verbatim>\<open>str.strip()\<close> removes leading and trailing white space, \<^verbatim>\<open>str.lower()\<close> maps
  the letters A to Z to lower case, \<^verbatim>\<open>kw in text\<close> tests for a contiguous occurrence.
\<close>

definition is_space :: "char \<Rightarrow> bool" where
  "is_space c \<longleftrightarrow>
     (let n = (of_char c :: nat) in (9 \<le> n \<and> n \<le> 13) \<or> (28 \<le> n \<and> n \<le> 32))"

definition strip :: "string \<Rightarrow> string" where
  "strip s = rev (dropWhile is_space (rev (dropWhile is_space s)))"

text \<open>
  The codes of A to Z are 65 to 90; the lower-case letter is 32 above, which for these
  codes is the same as setting bit 5.
\<close>

definition lower_char :: "char \<Rightarrow> char" where
  "lower_char c =
     (let n = (of_char c :: nat)
      in if 65 \<le> n \<and> n \<le> 90
         then Char (digit0 c) (digit1 c) (digit2 c) (digit3 c) (digit4 c) True (digit6 c) (digit7 c)
         else c)"

definition lower :: "string \<Rightarrow> string" where
  "lower s = map lower_char s"

fun is_substring :: "string \<Rightarrow> string \<Rightarrow> bool" where
  "is_substring kw [] \<longleftrightarrow> kw = []"
| "is_substring kw (c # cs) \<longleftrightarrow> prefix kw (c # cs) \<or> is_substring kw cs"

text \<open>
  Removal of every occurrence of \<open>kw\<close>, scanning from the left and resuming after each
  occurrence removed. Characters are compared after \<open>cf\<close>: the identity for
  \<^verbatim>\<open>text.replace(kw, "")\<close>, \<open>lower_char\<close> for
  \<^verbatim>\<open>re.sub(re.escape(kw), "", text, flags=re.IGNORECASE)\<close>. An empty \<open>kw\<close> removes
  nothing, as in Python.
\<close>

fun remove_matches :: "(char \<Rightarrow> char) \<Rightarrow> string \<Rightarrow> string \<Rightarrow> string" where
  "remove_matches cf kw [] = []"
| "remove_matches cf kw (c # cs) =
     (if kw \<noteq> [] \<and> map cf (take (length kw) (c # cs)) = map cf kw
      then remove_matches cf kw (drop (length kw) (c # cs))
      else c # remove_matches cf kw cs)"

text \<open>\<^verbatim>\<open>sep.join(xs)\<close>.\<close>

fun join :: "string \<Rightarrow> string list \<Rightarrow> string" where
  "join sep [] = []"
| "join sep [x] = x"
| "join sep (x # y # ys) = x @ sep @ join sep (y # ys)"

text \<open>
  Decimal formatting: \<open>str_nat\<close> is \<^verbatim>\<open>str(n)\<close> for a natural number, \<open>fmt_d w\<close> is
  the format specification \<^verbatim>\<open>0wd\<close> (zero padding to width \<open>w\<close>, the sign counted in
  the width).
\<close>

definition digit_char :: "nat \<Rightarrow> char" where
  "digit_char d = ''0123456789'' ! d"

fun str_nat :: "nat \<Rightarrow> string" where
  "str_nat n = (if n < 10 then [digit_char n] else str_nat (n div 10) @ [digit_char (n mod 10)])"

definition zfill :: "nat \<Rightarrow> string \<Rightarrow> string" where
  "zfill w s = replicate (w - length s) (CHR ''0'') @ s"

definition fmt_d :: "nat \<Rightarrow> int \<Rightarrow> string" where
  "fmt_d w x =
     (if x < 0 then CHR ''-'' # zfill (w - 1) (str_nat (nat (- x))) else zfill w (str_nat (nat x)))"

subsection \<open>SRT time codes (exporter.py, \_seconds\_to\_srt\_tc)\<close>

text \<open>
  \<^verbatim>\<open>int(x)\<close> truncates towards zero; \<^verbatim>\<open>x % 1\<close> is the fractional part, in [0, 1);
  \<^verbatim>\<open>//\<close> and \<^verbatim>\<open>%\<close> on integers are \<open>div\<close> and \<open>mod\<close>.
\<close>

definition py_int :: "real \<Rightarrow> int" where
  "py_int x = (if 0 \<le> x then \<lfloor>x\<rfloor> else \<lceil>x\<rceil>)"

definition py_mod1 :: "real \<Rightarrow> real" where
  "py_mod1 x = x - of_int \<lfloor>x\<rfloor>"

definition seconds_to_srt_tc :: "real \<Rightarrow> string" where
  "seconds_to_srt_tc seconds =
     (let ms = py_round (py_mod1 seconds * 1000);
          total_s = py_int seconds;
          ss = total_s mod 60;
          mm = (total_s div 60) mod 60;
          hh = total_s div 3600
      in fmt_d 2 hh @ '':'' @ fmt_d 2 mm @ '':'' @ fmt_d 2 ss @ '','' @ fmt_d 3 ms)"

subsection \<open>SRT export (exporter.py, export\_srt)\<close>

text \<open>
  The text of a cue. The first loop of the source lower-cases and filters \<^verbatim>\<open>text\<close>;
  when there are filter keywords its result is overwritten by \<^verbatim>\<open>clean_text\<close>, which
  removes each keyword in turn from the original text, ignoring case, and strips after
  each removal.
\<close>

definition cue_text :: "string list \<Rightarrow> string \<Rightarrow> string" where
  "cue_text filter_keywords ts_text0 =
     (let text = fold (\<lambda>kw t. strip (remove_matches id kw (lower t))) filter_keywords ts_text0
      in if filter_keywords \<noteq> []
         then fold (\<lambda>kw t. strip (remove_matches lower_char kw t)) filter_keywords ts_text0
         else text)"

definition newline :: string where
  "newline = [CHR 0x0A]"

definition srt_entry :: "nat \<Rightarrow> real \<Rightarrow> real \<Rightarrow> string \<Rightarrow> string" where
  "srt_entry counter rel_start rel_end text =
     str_nat counter @ newline @
     seconds_to_srt_tc rel_start @ '' --> '' @ seconds_to_srt_tc rel_end @ newline @
     text @ newline"

text \<open>
  The body of \<^verbatim>\<open>for ts in transcript\<close>: the state is \<^verbatim>\<open>(srt_entries, counter)\<close>;
  the segment and \<^verbatim>\<open>time_offset\<close> do not change in this loop.
\<close>

definition srt_sentence_step ::
  "string list \<Rightarrow> Segment \<Rightarrow> real \<Rightarrow> TranscriptSegment \<Rightarrow> string list \<times> nat \<Rightarrow>
   string list \<times> nat" where
  "srt_sentence_step filter_keywords seg time_offset ts st =
     (if ts_end ts \<le> seg_start seg \<or> ts_start ts \<ge> seg_end seg then st
      else let sub_start = max (ts_start ts) (seg_start seg);
               sub_end = min (ts_end ts) (seg_end seg);
               text = cue_text filter_keywords (ts_text ts)
           in if text = [] then st
              else let rel_start = time_offset + (sub_start - seg_start seg);
                       rel_end = time_offset + (sub_end - seg_start seg)
                   in (fst st @ [srt_entry (snd st) rel_start rel_end text], snd st + 1))"

text \<open>
  The body of \<^verbatim>\<open>for seg in enabled\<close>: the state is
  \<^verbatim>\<open>((srt_entries, counter), time_offset)\<close>.
\<close>

definition srt_segment_step ::
  "string list \<Rightarrow> TranscriptSegment list \<Rightarrow> Segment \<Rightarrow> (string list \<times> nat) \<times> real \<Rightarrow>
   (string list \<times> nat) \<times> real" where
  "srt_segment_step filter_keywords transcript seg st =
     (fold (srt_sentence_step filter_keywords seg (snd st)) transcript (fst st),
      snd st + (seg_end seg - seg_start seg))"

definition export_srt ::
  "Segment list \<Rightarrow> TranscriptSegment list \<Rightarrow> string list option \<Rightarrow> string" where
  "export_srt segments transcript filter_keywords =
     (let kws = map lower (case filter_keywords of None \<Rightarrow> [] | Some ks \<Rightarrow> ks);
          enabled_segs =
            sort_key seg_start (filter (\<lambda>s. enabled s \<and> seg_type s = ''keep'') segments);
          st = fold (srt_segment_step kws transcript) enabled_segs (([], 1), 0)
      in join newline (fst (fst st)))"

subsection \<open>Marker detection (marker.py)\<close>

text \<open>
  \<^verbatim>\<open>difflib.SequenceMatcher(None, a, b).ratio()\<close> belongs to Python's standard library,
  not to this repository: the similarity ratio is a parameter \<open>ratio\<close> of the model, and
  nothing is assumed about it. Indexing a list outside its range raises
  \<^verbatim>\<open>IndexError\<close>; the model returns the error as a value.
\<close>

datatype py_error = IndexError

definition FUZZY_THRESHOLD :: real where
  "FUZZY_THRESHOLD = 0.75"

definition fuzzy_match :: "(string \<Rightarrow> string \<Rightarrow> real) \<Rightarrow> string \<Rightarrow> string \<Rightarrow> real" where
  "fuzzy_match ratio text keyword =
     (let text' = lower (strip text);
          keyword' = lower (strip keyword)
      in if text' = keyword' \<or> is_substring keyword' text' then 1 else ratio text' keyword')"

definition get_word :: "TranscriptWord list \<Rightarrow> nat \<Rightarrow> py_error + TranscriptWord" where
  "get_word words i = (if i < length words then Inr (words ! i) else Inl IndexError)"

text \<open>\<^verbatim>\<open>"".join(words[j].word for j in js)\<close>.\<close>

fun join_words :: "TranscriptWord list \<Rightarrow> nat list \<Rightarrow> py_error + string" where
  "join_words words [] = Inr []"
| "join_words words (j # js) =
     (case get_word words j of
        Inl e \<Rightarrow> Inl e
      | Inr w \<Rightarrow> (case join_words words js of Inl e \<Rightarrow> Inl e | Inr s \<Rightarrow> Inr (tw_word w @ s)))"

text \<open>
  The loop \<^verbatim>\<open>for span in range(1, ...)\<close> of \<^verbatim>\<open>_check_word_sequence\<close>; the
  value of \<^verbatim>\<open>span\<close> is \<open>n\<close>.
\<close>

fun span_loop ::
  "(string \<Rightarrow> string \<Rightarrow> real) \<Rightarrow> TranscriptWord list \<Rightarrow> nat \<Rightarrow> string \<Rightarrow> nat list \<Rightarrow>
   py_error + (bool \<times> nat \<times> real)" where
  "span_loop ratio words start_idx keyword [] = Inr (False, start_idx, 0)"
| "span_loop ratio words start_idx keyword (n # spans) =
     (case join_words words (map (\<lambda>j. start_idx + j) [0..<n]) of
        Inl e \<Rightarrow> Inl e
      | Inr combined \<Rightarrow>
          if fuzzy_match ratio combined keyword \<ge> FUZZY_THRESHOLD
          then Inr (True, start_idx + n - 1, fuzzy_match ratio combined keyword)
          else span_loop ratio words start_idx keyword spans)"

text \<open>
  \<^verbatim>\<open>range(1, min(6, len(words) - start_idx + 1))\<close>: the subtraction is on Python
  integers, and the range is empty once the bound is 1 or less; on natural numbers the
  bound is 1 in those cases, and the range is empty as well.
\<close>

definition check_word_sequence ::
  "(string \<Rightarrow> string \<Rightarrow> real) \<Rightarrow> TranscriptWord list \<Rightarrow> nat \<Rightarrow> string \<Rightarrow>
   py_error + (bool \<times> nat \<times> real)" where
  "check_word_sequence ratio words start_idx keyword =
     (if length keyword \<le> 3
      then (case get_word words start_idx of
              Inl e \<Rightarrow> Inl e
            | Inr w \<Rightarrow>
                Inr (fuzzy_match ratio (tw_word w) keyword \<ge> FUZZY_THRESHOLD, start_idx,
                     fuzzy_match ratio (tw_word w) keyword))
      else span_loop ratio words start_idx keyword
             [1..<min 6 (length words - start_idx + 1)])"

definition keyword_map_of ::
  "string list \<Rightarrow> string list \<Rightarrow> string list \<Rightarrow> string list \<Rightarrow> (string \<times> MarkerType) list" where
  "keyword_map_of ng_keywords ok_keywords start_keywords end_keywords =
     map (\<lambda>kw. (kw, NG)) ng_keywords @ map (\<lambda>kw. (kw, OK)) ok_keywords @
     map (\<lambda>kw. (kw, START)) start_keywords @ map (\<lambda>kw. (kw, END)) end_keywords"

text \<open>
  The sentence pass: \<open>sentence_keywords\<close> is \<^verbatim>\<open>for keyword, mtype in keyword_map\<close>
  with its \<^verbatim>\<open>break\<close> at the first match.
\<close>

fun sentence_keywords ::
  "(string \<Rightarrow> string \<Rightarrow> real) \<Rightarrow> string \<Rightarrow> TranscriptSegment \<Rightarrow> Marker list \<Rightarrow>
   (string \<times> MarkerType) list \<Rightarrow> Marker list" where
  "sentence_keywords ratio seg_text seg markers [] = markers"
| "sentence_keywords ratio seg_text seg markers ((keyword, mtype) # rest) =
     (if fuzzy_match ratio seg_text keyword \<ge> FUZZY_THRESHOLD
      then markers @
           [\<lparr>m_type = mtype, m_word = seg_text, m_start = ts_start seg, m_end = ts_end seg,
             m_confidence = round3 (fuzzy_match ratio seg_text keyword)\<rparr>]
      else sentence_keywords ratio seg_text seg markers rest)"

definition sentence_pass ::
  "(string \<Rightarrow> string \<Rightarrow> real) \<Rightarrow> (string \<times> MarkerType) list \<Rightarrow> TranscriptSegment list \<Rightarrow>
   Marker list \<Rightarrow> Marker list" where
  "sentence_pass ratio keyword_map transcript markers =
     fold (\<lambda>seg ms. sentence_keywords ratio (strip (ts_text seg)) seg ms keyword_map)
       transcript markers"

text \<open>
  The word pass. \<open>word_match\<close> is the branch \<^verbatim>\<open>if is_match\<close>: it returns the
  marker list, extended unless a marker with nearly the same span is there already.
  \<open>word_keywords\<close> is \<^verbatim>\<open>for keyword, mtype in keyword_map\<close> at position \<open>i\<close>: it
  returns \<open>None\<close> when no keyword matched, and otherwise \<^verbatim>\<open>end_idx\<close> with the new
  marker list. \<open>word_loop\<close> is \<^verbatim>\<open>while i < len(seg.words)\<close>.
\<close>

definition word_match ::
  "TranscriptWord list \<Rightarrow> nat \<Rightarrow> TranscriptWord \<Rightarrow> Marker list \<Rightarrow> MarkerType \<Rightarrow> nat \<Rightarrow> real \<Rightarrow>
   py_error + Marker list" where
  "word_match words i word markers mtype end_idx score =
     (case get_word words end_idx of
        Inl e \<Rightarrow> Inl e
      | Inr end_word \<Rightarrow>
          if \<not> list_ex (\<lambda>m. \<bar>m_start m - tw_start word\<bar> < 0.1 \<and>
                             \<bar>m_end m - tw_end end_word\<bar> < 0.1) markers
          then (case join_words words [i..<end_idx + 1] of
                  Inl e \<Rightarrow> Inl e
                | Inr w \<Rightarrow>
                    Inr (markers @
                         [\<lparr>m_type = mtype, m_word = w, m_start = tw_start word,
                           m_end = tw_end end_word, m_confidence = round3 score\<rparr>]))
          else Inr markers)"

fun word_keywords ::
  "(string \<Rightarrow> string \<Rightarrow> real) \<Rightarrow> TranscriptWord list \<Rightarrow> nat \<Rightarrow> TranscriptWord \<Rightarrow> Marker list \<Rightarrow>
   (string \<times> MarkerType) list \<Rightarrow> py_error + (nat \<times> Marker list) option" where
  "word_keywords ratio words i word markers [] = Inr None"
| "word_keywords ratio words i word markers ((keyword, mtype) # rest) =
     (case check_word_sequence ratio words i keyword of
        Inl e \<Rightarrow> Inl e
      | Inr (is_match, end_idx, score) \<Rightarrow>
          if is_match
          then (case word_match words i word markers mtype end_idx score of
                  Inl e \<Rightarrow> Inl e
                | Inr markers' \<Rightarrow> Inr (Some (end_idx, markers')))
          else word_keywords ratio words i word markers rest)"

text \<open>
  A match never ends before the position it started from; this is what makes the
  \<^verbatim>\<open>while\<close> loop advance.
\<close>

lemma span_loop_end_idx:
  "span_loop ratio words start_idx keyword spans = Inr (b, end_idx, score) \<Longrightarrow>
   \<forall>n \<in> set spans. 1 \<le> n \<Longrightarrow> start_idx \<le> end_idx"
  by (induction spans) (auto split: sum.splits if_splits)

lemma check_word_sequence_end_idx:
  "check_word_sequence ratio words start_idx keyword = Inr (b, end_idx, score) \<Longrightarrow>
   start_idx \<le> end_idx"
proof (cases "length keyword \<le> 3")
  case True
  then show "check_word_sequence ratio words start_idx keyword = Inr (b, end_idx, score) \<Longrightarrow>
    start_idx \<le> end_idx"
    by (auto simp: check_word_sequence_def split: sum.splits)
next
  case False
  assume "check_word_sequence ratio words start_idx keyword = Inr (b, end_idx, score)"
  with False
  have "span_loop ratio words start_idx keyword [1..<min 6 (length words - start_idx + 1)] =
          Inr (b, end_idx, score)"
    by (simp add: check_word_sequence_def)
  moreover have "\<forall>n \<in> set [1..<min 6 (length words - start_idx + 1)]. 1 \<le> n"
    unfolding set_upt by (intro ballI) (simp only: atLeastLessThan_iff)
  ultimately show "start_idx \<le> end_idx" by (rule span_loop_end_idx)
qed

lemma word_keywords_end_idx:
  "word_keywords ratio words i word markers keyword_map = Inr (Some (end_idx, markers')) \<Longrightarrow>
   i \<le> end_idx"
proof (induction keyword_map)
  case Nil
  then show ?case by simp
next
  case (Cons km rest)
  obtain keyword mtype where km: "km = (keyword, mtype)" by (cases km)
  show ?case
  proof (cases "check_word_sequence ratio words i keyword")
    case (Inl e)
    with Cons.prems km show ?thesis by simp
  next
    case (Inr r)
    obtain is_match e score where r: "r = (is_match, e, score)" by (cases r)
    show ?thesis
    proof (cases is_match)
      case True
      with Cons.prems km Inr r have "e = end_idx" by (auto split: sum.splits)
      with Inr r show ?thesis using check_word_sequence_end_idx by blast
    next
      case False
      with Cons.prems km Inr r Cons.IH show ?thesis by simp
    qed
  qed
qed

function word_loop ::
  "(string \<Rightarrow> string \<Rightarrow> real) \<Rightarrow> (string \<times> MarkerType) list \<Rightarrow> TranscriptWord list \<Rightarrow> nat \<Rightarrow>
   Marker list \<Rightarrow> py_error + Marker list" where
  "word_loop ratio keyword_map words i markers =
     (if i < length words
      then (case get_word words i of
              Inl e \<Rightarrow> Inl e
            | Inr word \<Rightarrow>
                (case word_keywords ratio words i word markers keyword_map of
                   Inl e \<Rightarrow> Inl e
                 | Inr None \<Rightarrow> word_loop ratio keyword_map words (i + 1) markers
                 | Inr (Some (end_idx, markers')) \<Rightarrow>
                     word_loop ratio keyword_map words (end_idx + 1) markers'))
      else Inr markers)"
  by pat_completeness auto

termination word_loop
proof (relation "measure (\<lambda>(ratio, keyword_map, words, i, markers). length words - i)")
  show "wf (measure (\<lambda>(ratio, keyword_map, words, i, markers). length words - i))"
    by simp
next
  fix ratio :: "string \<Rightarrow> string \<Rightarrow> real" and keyword_map :: "(string \<times> MarkerType) list"
    and words :: "TranscriptWord list" and i :: nat and markers :: "Marker list"
  assume "i < length words"
  then show "((ratio, keyword_map, words, i + 1, markers), (ratio, keyword_map, words, i, markers))
      \<in> measure (\<lambda>(ratio, keyword_map, words, i, markers). length words - i)"
    by simp
next
  fix ratio :: "string \<Rightarrow> string \<Rightarrow> real" and keyword_map :: "(string \<times> MarkerType) list"
    and words :: "TranscriptWord list" and i :: nat and markers :: "Marker list"
    and word x2 x2a end_idx markers'
  assume "i < length words"
    and "word_keywords ratio words i word markers keyword_map = Inr x2"
    and "x2 = Some x2a" and "(end_idx, markers') = x2a"
  then have "i \<le> end_idx" using word_keywords_end_idx by metis
  with \<open>i < length words\<close>
  show "((ratio, keyword_map, words, end_idx + 1, markers'),
         (ratio, keyword_map, words, i, markers))
      \<in> measure (\<lambda>(ratio, keyword_map, words, i, markers). length words - i)"
    by simp
qed

text \<open>
  The second \<^verbatim>\<open>for seg in transcript\<close>, then \<open>detect_markers\<close> itself.
  \<^verbatim>\<open>start_keywords or []\<close> turns \<^verbatim>\<open>None\<close> into the empty list.
\<close>

fun word_pass ::
  "(string \<Rightarrow> string \<Rightarrow> real) \<Rightarrow> (string \<times> MarkerType) list \<Rightarrow> TranscriptSegment list \<Rightarrow>
   Marker list \<Rightarrow> py_error + Marker list" where
  "word_pass ratio keyword_map [] markers = Inr markers"
| "word_pass ratio keyword_map (seg # rest) markers =
     (if ts_words seg = [] then word_pass ratio keyword_map rest markers
      else (case word_loop ratio keyword_map (ts_words seg) 0 markers of
              Inl e \<Rightarrow> Inl e
            | Inr markers' \<Rightarrow> word_pass ratio keyword_map rest markers'))"

definition detect_markers ::
  "(string \<Rightarrow> string \<Rightarrow> real) \<Rightarrow> TranscriptSegment list \<Rightarrow> string list \<Rightarrow> string list \<Rightarrow>
   string list option \<Rightarrow> string list option \<Rightarrow> py_error + Marker list" where
  "detect_markers ratio transcript ng_keywords ok_keywords start_keywords end_keywords =
     (let keyword_map =
            keyword_map_of ng_keywords ok_keywords
              (case start_keywords of None \<Rightarrow> [] | Some ks \<Rightarrow> ks)
              (case end_keywords of None \<Rightarrow> [] | Some ks \<Rightarrow> ks);
          markers = sentence_pass ratio keyword_map transcript []
      in (case word_pass ratio keyword_map transcript markers of
            Inl e \<Rightarrow> Inl e
          | Inr markers' \<Rightarrow> Inr (sort_key m_start markers')))"

subsection \<open>The cues of the SRT export, as described\<close>

text \<open>
  \<open>filtered_text\<close>: with no filter keyword the sentence text as it is; otherwise each
  keyword in turn is removed, ignoring case, and the text is trimmed after each removal.
  \<open>srt_cue_of\<close>: a sentence that overlaps the segment and whose filtered text is not
  empty gives one cue, clipped to the segment and shifted to the output offset.
  \<open>output_offset\<close>: the sum of the durations of the segments before position \<open>i\<close>.
  \<open>srt_cues\<close>: the cues of all segments, segment by segment and sentence by sentence.
  \<open>render_cues\<close>: the cues numbered from 1 and formatted.
\<close>

definition filtered_text :: "string list \<Rightarrow> string \<Rightarrow> string" where
  "filtered_text kws text =
     (if kws = [] then text else fold (\<lambda>kw t. strip (remove_matches lower_char kw t)) kws text)"

definition srt_cue_of ::
  "string list \<Rightarrow> real \<Rightarrow> Segment \<Rightarrow> TranscriptSegment \<Rightarrow> (real \<times> real \<times> string) option" where
  "srt_cue_of kws off seg ts =
     (if ts_end ts > seg_start seg \<and> ts_start ts < seg_end seg \<and>
         filtered_text kws (ts_text ts) \<noteq> []
      then Some (off + (max (ts_start ts) (seg_start seg) - seg_start seg),
                 off + (min (ts_end ts) (seg_end seg) - seg_start seg),
                 filtered_text kws (ts_text ts))
      else None)"

definition output_offset :: "Segment list \<Rightarrow> nat \<Rightarrow> real" where
  "output_offset segs i = sum_list (map (\<lambda>s. seg_end s - seg_start s) (take i segs))"

definition srt_cues ::
  "string list \<Rightarrow> TranscriptSegment list \<Rightarrow> Segment list \<Rightarrow> (real \<times> real \<times> string) list" where
  "srt_cues kws transcript segs =
     concat (map (\<lambda>i. List.map_filter (srt_cue_of kws (output_offset segs i) (segs ! i)) transcript)
               [0..<length segs])"

definition render_cues :: "(real \<times> real \<times> string) list \<Rightarrow> string list" where
  "render_cues cues = map (\<lambda>(n, a, b, t). srt_entry n a b t) (enumerate 1 cues)"

text \<open>The same cues by recursion over the segments, with the offset carried along.\<close>

fun cues_from ::
  "string list \<Rightarrow> TranscriptSegment list \<Rightarrow> real \<Rightarrow> Segment list \<Rightarrow> (real \<times> real \<times> string) list" where
  "cues_from kws transcript off [] = []"
| "cues_from kws transcript off (seg # segs) =
     List.map_filter (srt_cue_of kws off seg) transcript @
     cues_from kws transcript (off + (seg_end seg - seg_start seg)) segs"

text \<open>
  What every detected marker satisfies: its confidence is a value rounded to three
  decimals, and its type is one of the types \<open>T\<close> the keyword map holds.
\<close>

definition marker_ok :: "MarkerType set \<Rightarrow> Marker \<Rightarrow> bool" where
  "marker_ok T m \<longleftrightarrow> round3 (m_confidence m) = m_confidence m \<and> m_type m \<in> T"

subsection \<open>Properties of segment lists\<close>

definition overlapping :: "Segment \<Rightarrow> Segment \<Rightarrow> bool" where
  "overlapping a b \<longleftrightarrow> max (seg_start a) (seg_start b) \<le> min (seg_end a) (seg_end b)"

definition pairwise_non_overlapping :: "Segment list \<Rightarrow> bool" where
  "pairwise_non_overlapping xs \<longleftrightarrow>
     (\<forall>i < length xs. \<forall>j < length xs. i \<noteq> j \<longrightarrow> \<not> overlapping (xs ! i) (xs ! j))"

definition sorted_by_start :: "Segment list \<Rightarrow> bool" where
  "sorted_by_start xs \<longleftrightarrow> sorted (map seg_start xs)"

text \<open>The gap the merge pass leaves between any two segments it returns.\<close>

definition gapped :: "Segment list \<Rightarrow> bool" where
  "gapped xs \<longleftrightarrow> sorted_wrt (\<lambda>a b. seg_end a + 0.05 < seg_start b) xs"

text \<open>
  The groups of the merge pass: the sorted input cut into the runs that the loop folds
  into one returned segment each. \<open>group_from g e rest\<close> carries the run \<open>g\<close> collected
  so far and \<open>e\<close>, the end of \<^verbatim>\<open>merged[-1]\<close> at that moment.
\<close>

fun group_from :: "Segment list \<Rightarrow> real \<Rightarrow> Segment list \<Rightarrow> Segment list list" where
  "group_from g e [] = [g]"
| "group_from g e (seg # rest) =
     (if seg_start seg \<le> e + 0.05
      then group_from (g @ [seg]) (max e (seg_end seg)) rest
      else g # group_from [seg] (seg_end seg) rest)"

definition merge_groups :: "Segment list \<Rightarrow> Segment list list" where
  "merge_groups segments =
     (case sort_key seg_start segments of
        [] \<Rightarrow> []
      | first # rest \<Rightarrow> group_from [first] (seg_end first) rest)"

text \<open>What a group becomes: its first segment, with the end set to the largest end.\<close>

definition group_result :: "Segment list \<Rightarrow> Segment" where
  "group_result g = (hd g)\<lparr>seg_end := Max (seg_end ` set g)\<rparr>"

definition same_except_end :: "Segment \<Rightarrow> Segment \<Rightarrow> bool" where
  "same_except_end x y \<longleftrightarrow>
     seg_id y = seg_id x \<and> seg_type y = seg_type x \<and> seg_start y = seg_start x \<and>
     trigger_marker y = trigger_marker x \<and> enabled y = enabled x \<and>
     manual_adjusted y = manual_adjusted x"

definition fresh_keep :: "Segment \<Rightarrow> bool" where
  "fresh_keep s \<longleftrightarrow> seg_type s = ''keep'' \<and> enabled s \<and> \<not> manual_adjusted s"

text \<open>The merge loop as a plain recursion, for the proofs.\<close>

fun merge_from :: "Segment \<Rightarrow> Segment list \<Rightarrow> Segment list" where
  "merge_from lastseg [] = [lastseg]"
| "merge_from lastseg (seg # rest) =
     (if seg_start seg \<le> seg_end lastseg + 0.05
      then merge_from (lastseg\<lparr>seg_end := max (seg_end lastseg) (seg_end seg)\<rparr>) rest
      else lastseg # merge_from seg rest)"

subsection \<open>Example inputs\<close>

definition ex_ids :: "nat \<Rightarrow> string" where
  "ex_ids n = ''seg_'' @ replicate n (CHR ''a'')"

definition ex_marker :: "MarkerType \<Rightarrow> real \<Rightarrow> real \<Rightarrow> Marker" where
  "ex_marker t a b = \<lparr>m_type = t, m_word = ''cue'', m_start = a, m_end = b, m_confidence = 1\<rparr>"

definition ex_markers :: "Marker list" where
  "ex_markers =
     [ex_marker START 0 0.1, ex_marker NG 2 2.5, ex_marker END 5 5.5, ex_marker OK 10 10.5]"

definition ex_sentence :: "string \<Rightarrow> real \<Rightarrow> real \<Rightarrow> TranscriptSegment" where
  "ex_sentence t a b = \<lparr>ts_text = t, ts_start = a, ts_end = b, ts_words = []\<rparr>"

definition ex_word :: "string \<Rightarrow> real \<Rightarrow> real \<Rightarrow> TranscriptWord" where
  "ex_word w a b = \<lparr>tw_word = w, tw_start = a, tw_end = b, tw_confidence = 1\<rparr>"

definition ex_ratio :: "string \<Rightarrow> string \<Rightarrow> real" where
  "ex_ratio a b = 0"

definition ex_transcript :: "TranscriptSegment list" where
  "ex_transcript =
     [\<lparr>ts_text = ''this take ng'', ts_start = 0, ts_end = 3,
       ts_words = [ex_word ''this'' 0 1, ex_word ''take'' 1 2, ex_word ''ng'' 2 3]\<rparr>,
      \<lparr>ts_text = ''fine'', ts_start = 3, ts_end = 4, ts_words = []\<rparr>,
      \<lparr>ts_text = ''that is ok'', ts_start = 4, ts_end = 6,
       ts_words = [ex_word ''that'' 4 4.5, ex_word ''is'' 4.5 5, ex_word ''ok'' 5 6]\<rparr>]"

definition ex_detected :: "Marker list" where
  "ex_detected =
     [\<lparr>m_type = NG, m_word = ''this take ng'', m_start = 0, m_end = 3, m_confidence = 1\<rparr>,
      \<lparr>m_type = NG, m_word = ''ng'', m_start = 2, m_end = 3, m_confidence = 1\<rparr>,
      \<lparr>m_type = OK, m_word = ''that is ok'', m_start = 4, m_end = 6, m_confidence = 1\<rparr>,
      \<lparr>m_type = OK, m_word = ''ok'', m_start = 5, m_end = 6, m_confidence = 1\<rparr>]"

definition ex_seg :: "nat \<Rightarrow> real \<Rightarrow> real \<Rightarrow> Segment" where
  "ex_seg n a b = new_segment (ex_ids n) a b None"

definition ex_segs :: "Segment list" where
  "ex_segs = [ex_seg 0 5 7, ex_seg 1 0 2, ex_seg 2 1.5 3, ex_seg 3 7.04 6]"

text \<open>
  Segments that carry a trigger marker: \<open>ex_tsegs\<close> has four with distinct identifiers
  and distinct trigger markers, \<open>ex_shared\<close> has two that share one trigger marker.
\<close>

definition ex_tseg :: "nat \<Rightarrow> real \<Rightarrow> real \<Rightarrow> Segment" where
  "ex_tseg n a b = new_segment (ex_ids n) a b (Some (ex_marker OK a b))"

definition ex_tsegs :: "Segment list" where
  "ex_tsegs = [ex_tseg 0 5 7, ex_tseg 1 0 2, ex_tseg 2 1.5 3, ex_tseg 3 7.04 6]"

definition ex_shared :: "Segment list" where
  "ex_shared =
     [new_segment (ex_ids 0) 0 2 (Some (ex_marker OK 10 10.5)),
      new_segment (ex_ids 1) 1 3 (Some (ex_marker OK 10 10.5))]"

section \<open>Proofs\<close>

subsection \<open>The merge pass\<close>

lemma merge_loop_merge_from: "merge_loop front lastseg rest = front @ merge_from lastseg rest"
  by (induction rest arbitrary: front lastseg) auto

lemma merge_overlapping_Nil [simp]: "merge_overlapping [] = []"
  by (simp add: merge_overlapping_def)

lemma merge_overlapping_sorted:
  "sort_key seg_start segments = first # rest \<Longrightarrow>
   merge_overlapping segments = merge_from first rest"
  by (cases "segments = []") (auto simp: merge_overlapping_def merge_loop_merge_from)

lemma merge_from_start_mem:
  "y \<in> set (merge_from lastseg rest) \<Longrightarrow>
   seg_start y = seg_start lastseg \<or> seg_start y \<in> seg_start ` set rest"
proof (induction rest arbitrary: lastseg)
  case Nil
  then show ?case by simp
next
  case (Cons seg rest)
  show ?case
  proof (cases "seg_start seg \<le> seg_end lastseg + 0.05")
    case True
    with Cons.prems
    have "y \<in> set (merge_from (lastseg\<lparr>seg_end := max (seg_end lastseg) (seg_end seg)\<rparr>) rest)"
      by simp
    from Cons.IH [OF this] show ?thesis by auto
  next
    case False
    with Cons.prems have "y = lastseg \<or> y \<in> set (merge_from seg rest)" by simp
    then show ?thesis using Cons.IH [of seg] by auto
  qed
qed

lemma merge_from_starts:
  "seg_start ` set (merge_from lastseg rest) \<subseteq> seg_start ` set (lastseg # rest)"
  using merge_from_start_mem by fastforce

lemma merge_from_hd_start: "seg_start (hd (merge_from lastseg rest)) = seg_start lastseg"
  by (induction rest arbitrary: lastseg) auto

lemma merge_from_not_Nil [simp]: "merge_from lastseg rest \<noteq> []"
  by (induction rest arbitrary: lastseg) auto

lemma merge_from_sorted:
  "sorted (map seg_start (lastseg # rest)) \<Longrightarrow> sorted (map seg_start (merge_from lastseg rest))"
proof (induction rest arbitrary: lastseg)
  case Nil
  then show ?case by simp
next
  case (Cons seg rest)
  show ?case
  proof (cases "seg_start seg \<le> seg_end lastseg + 0.05")
    case True
    from Cons.prems have "sorted (map seg_start (lastseg\<lparr>seg_end := max (seg_end lastseg) (seg_end seg)\<rparr> # rest))"
      by auto
    from Cons.IH [OF this] True show ?thesis by simp
  next
    case False
    from Cons.prems have s: "sorted (map seg_start (seg # rest))" by simp
    have "\<forall>y \<in> set (merge_from seg rest). seg_start lastseg \<le> seg_start y"
    proof
      fix y assume "y \<in> set (merge_from seg rest)"
      then have "seg_start y \<in> seg_start ` set (seg # rest)"
        using merge_from_starts [of seg rest] by blast
      with Cons.prems show "seg_start lastseg \<le> seg_start y" by auto
    qed
    with Cons.IH [OF s] False show ?thesis by simp
  qed
qed

lemma merge_from_gapped:
  "sorted (map seg_start (lastseg # rest)) \<Longrightarrow> gapped (merge_from lastseg rest)"
proof (induction rest arbitrary: lastseg)
  case Nil
  then show ?case by (simp add: gapped_def)
next
  case (Cons seg rest)
  show ?case
  proof (cases "seg_start seg \<le> seg_end lastseg + 0.05")
    case True
    from Cons.prems have "sorted (map seg_start (lastseg\<lparr>seg_end := max (seg_end lastseg) (seg_end seg)\<rparr> # rest))"
      by auto
    from Cons.IH [OF this] True show ?thesis by simp
  next
    case False
    from Cons.prems have s: "sorted (map seg_start (seg # rest))" by simp
    have "\<forall>y \<in> set (merge_from seg rest). seg_end lastseg + 0.05 < seg_start y"
    proof
      fix y assume "y \<in> set (merge_from seg rest)"
      then have "seg_start y \<in> seg_start ` set (seg # rest)"
        using merge_from_starts [of seg rest] by blast
      with s have "seg_start seg \<le> seg_start y" by auto
      with False show "seg_end lastseg + 0.05 < seg_start y" by simp
    qed
    with Cons.IH [OF s] False show ?thesis by (simp add: gapped_def)
  qed
qed

lemma merge_overlapping_sorted_by_start: "sorted_by_start (merge_overlapping segments)"
proof (cases "sort_key seg_start segments")
  case Nil
  then have "segments = []" by (metis length_sort length_0_conv)
  then show ?thesis by (simp add: sorted_by_start_def)
next
  case (Cons first rest)
  have "sorted (map seg_start (first # rest))"
    using sorted_sort_key [of seg_start segments] Cons by simp
  then show ?thesis
    using merge_from_sorted merge_overlapping_sorted [OF Cons] by (simp add: sorted_by_start_def)
qed

lemma merge_overlapping_gapped: "gapped (merge_overlapping segments)"
proof (cases "sort_key seg_start segments")
  case Nil
  then have "segments = []" by (metis length_sort length_0_conv)
  then show ?thesis by (simp add: gapped_def)
next
  case (Cons first rest)
  have "sorted (map seg_start (first # rest))"
    using sorted_sort_key [of seg_start segments] Cons by simp
  then show ?thesis
    using merge_from_gapped merge_overlapping_sorted [OF Cons] by simp
qed

lemma gapped_non_overlapping:
  assumes g: "gapped xs"
  shows "pairwise_non_overlapping xs"
proof -
  have lt: "seg_end (xs ! i) < seg_start (xs ! j)" if "i < j" "j < length xs" for i j
  proof -
    from g that have "seg_end (xs ! i) + 0.05 < seg_start (xs ! j)"
      unfolding gapped_def by (simp add: sorted_wrt_iff_nth_less)
    then show ?thesis by simp
  qed
  show ?thesis
    unfolding pairwise_non_overlapping_def overlapping_def
  proof (intro allI impI)
    fix i j assume i: "i < length xs" and j: "j < length xs" and ne: "i \<noteq> j"
    show "\<not> max (seg_start (xs ! i)) (seg_start (xs ! j)) \<le> min (seg_end (xs ! i)) (seg_end (xs ! j))"
    proof (cases "i < j")
      case True
      with lt [OF True j] show ?thesis by auto
    next
      case False
      with ne have ji: "j < i" by simp
      with lt [OF ji i] show ?thesis by auto
    qed
  qed
qed

lemma merge_from_gapped_id: "gapped (lastseg # rest) \<Longrightarrow> merge_from lastseg rest = lastseg # rest"
  by (induction rest arbitrary: lastseg) (auto simp: gapped_def)

lemma gapped_sorted_merge_id:
  "gapped xs \<Longrightarrow> sorted_by_start xs \<Longrightarrow> merge_overlapping xs = xs"
proof (cases xs)
  case Nil
  then show ?thesis by simp
next
  case (Cons x rest)
  assume g: "gapped xs" and s: "sorted_by_start xs"
  from s have "sort_key seg_start xs = xs"
    by (simp add: sorted_by_start_def sort_key_id_if_sorted)
  with Cons have "merge_overlapping xs = merge_from x rest"
    using merge_overlapping_sorted by simp
  with g Cons show ?thesis by (simp add: merge_from_gapped_id)
qed

text \<open>
  Claim C5. The overlap-merge pass is idempotent: merging the result of a merge
  again returns the identical list.
\<close>

theorem merge_overlapping_idempotent:
  "merge_overlapping (merge_overlapping L) = merge_overlapping L"
  by (rule gapped_sorted_merge_id [OF merge_overlapping_gapped merge_overlapping_sorted_by_start])

subsection \<open>The fields the slicers set\<close>

lemma merge_from_mem:
  "y \<in> set (merge_from lastseg rest) \<Longrightarrow> \<exists>x \<in> set (lastseg # rest). same_except_end x y"
proof (induction rest arbitrary: lastseg)
  case Nil
  then show ?case by (simp add: same_except_end_def)
next
  case (Cons seg rest)
  show ?case
  proof (cases "seg_start seg \<le> seg_end lastseg + 0.05")
    case True
    with Cons.prems
    have "y \<in> set (merge_from (lastseg\<lparr>seg_end := max (seg_end lastseg) (seg_end seg)\<rparr>) rest)"
      by simp
    from Cons.IH [OF this] obtain x
      where x: "x \<in> set (lastseg\<lparr>seg_end := max (seg_end lastseg) (seg_end seg)\<rparr> # rest)"
        and y: "same_except_end x y" by blast
    show ?thesis
    proof (cases "x \<in> set rest")
      case True
      with y show ?thesis by auto
    next
      case False
      with x have "x = lastseg\<lparr>seg_end := max (seg_end lastseg) (seg_end seg)\<rparr>" by simp
      with y have "same_except_end lastseg y" by (simp add: same_except_end_def)
      then show ?thesis by auto
    qed
  next
    case False
    with Cons.prems have "y = lastseg \<or> y \<in> set (merge_from seg rest)" by simp
    then show ?thesis
    proof
      assume "y = lastseg"
      then have "same_except_end lastseg y" by (simp add: same_except_end_def)
      then show ?thesis by auto
    next
      assume "y \<in> set (merge_from seg rest)"
      from Cons.IH [OF this] show ?thesis by auto
    qed
  qed
qed

lemma merge_overlapping_mem:
  assumes "y \<in> set (merge_overlapping L)"
  shows "\<exists>x \<in> set L. same_except_end x y"
proof (cases "sort_key seg_start L")
  case Nil
  then have "L = []" by (metis length_sort length_0_conv)
  with assms show ?thesis by simp
next
  case (Cons first rest)
  with assms have "y \<in> set (merge_from first rest)"
    by (simp add: merge_overlapping_sorted)
  from merge_from_mem [OF this] obtain x where "x \<in> set (first # rest)" "same_except_end x y"
    by blast
  moreover have "set (first # rest) = set L" using Cons set_sort [of seg_start L] by simp
  ultimately show ?thesis by blast
qed

lemma merge_overlapping_fresh_keep:
  "\<forall>s \<in> set L. fresh_keep s \<Longrightarrow> \<forall>s \<in> set (merge_overlapping L). fresh_keep s"
  using merge_overlapping_mem by (fastforce simp: fresh_keep_def same_except_end_def)

lemma fresh_keep_new_segment [simp]: "fresh_keep (new_segment i a b t)"
  by (simp add: fresh_keep_def new_segment_def)

lemma backtrack_step_fresh_keep:
  "\<forall>s \<in> set segments. fresh_keep s \<Longrightarrow>
   \<forall>s \<in> set (backtrack_step ids ngs dur pre post segments ok). fresh_keep s"
  by (simp add: backtrack_step_def Let_def)

lemma backtrack_loop_fresh_keep:
  "\<forall>s \<in> set segments. fresh_keep s \<Longrightarrow>
   \<forall>s \<in> set (backtrack_loop ids ngs dur pre post segments oks). fresh_keep s"
proof (induction oks arbitrary: segments)
  case Nil
  then show ?case by simp
next
  case (Cons ok oks)
  from Cons.IH [OF backtrack_step_fresh_keep [OF Cons.prems]] show ?case by simp
qed

lemma interval_step_fresh_keep:
  "\<forall>s \<in> set segments. fresh_keep s \<Longrightarrow>
   \<forall>s \<in> set (interval_step ids sms ems dur pre post segments m). fresh_keep s"
  by (simp add: interval_step_def Let_def)

lemma interval_loop_fresh_keep:
  "\<forall>s \<in> set segments. fresh_keep s \<Longrightarrow>
   \<forall>s \<in> set (interval_loop ids sms ems dur pre post segments ms). fresh_keep s"
proof (induction ms arbitrary: segments)
  case Nil
  then show ?case by simp
next
  case (Cons m ms)
  from Cons.IH [OF interval_step_fresh_keep [OF Cons.prems]] show ?case by simp
qed

lemma slice_backtrack_fresh_keep:
  "\<forall>s \<in> set (slice_backtrack ids markers transcript dur pre post). fresh_keep s"
proof -
  have "\<forall>s \<in> set (merge_overlapping (backtrack_loop ids ngs dur pre post [] oks)). fresh_keep s"
    for ngs oks
    by (rule merge_overlapping_fresh_keep, rule backtrack_loop_fresh_keep) simp
  then show ?thesis by (simp add: slice_backtrack_def Let_def)
qed

lemma slice_interval_fresh_keep:
  "\<forall>s \<in> set (slice_interval ids markers transcript dur pre post). fresh_keep s"
proof -
  have "\<forall>s \<in> set (merge_overlapping (interval_loop ids sms ems dur pre post [] ms)). fresh_keep s"
    for sms ems ms
    by (rule merge_overlapping_fresh_keep, rule interval_loop_fresh_keep) simp
  then show ?thesis by (simp add: slice_interval_def Let_def)
qed

text \<open>
  Claim C9. Every segment that \<open>slice_backtrack\<close> or \<open>slice_interval\<close> returns has
  type \<^verbatim>\<open>"keep"\<close>, is enabled and is not manually adjusted; so the exporters' filter
  \<^verbatim>\<open>s.enabled and s.type == "keep"\<close> retains every freshly sliced segment.
\<close>

theorem sliced_segments_enabled_keep:
  "(\<forall>s \<in> set (slice_backtrack ids markers transcript dur pre post).
      seg_type s = ''keep'' \<and> enabled s \<and> \<not> manual_adjusted s) \<and>
   (\<forall>s \<in> set (slice_interval ids markers transcript dur pre post).
      seg_type s = ''keep'' \<and> enabled s \<and> \<not> manual_adjusted s) \<and>
   filter (\<lambda>s. enabled s \<and> seg_type s = ''keep'')
     (slice_backtrack ids markers transcript dur pre post) =
     slice_backtrack ids markers transcript dur pre post \<and>
   filter (\<lambda>s. enabled s \<and> seg_type s = ''keep'')
     (slice_interval ids markers transcript dur pre post) =
     slice_interval ids markers transcript dur pre post"
  using slice_backtrack_fresh_keep [of ids markers transcript dur pre post]
    slice_interval_fresh_keep [of ids markers transcript dur pre post]
  by (simp add: fresh_keep_def)

text \<open>The theorem at a marker list for which both slicers return a segment.\<close>

theorem sliced_segments_enabled_keep_witness:
  "slice_backtrack ex_ids ex_markers [] 20 0.5 0.3 \<noteq> [] \<and>
   slice_interval ex_ids ex_markers [] 20 0.5 0.3 \<noteq> [] \<and>
   list_all (\<lambda>s. seg_type s = ''keep'' \<and> enabled s \<and> \<not> manual_adjusted s)
     (slice_backtrack ex_ids ex_markers [] 20 0.5 0.3) \<and>
   list_all (\<lambda>s. seg_type s = ''keep'' \<and> enabled s \<and> \<not> manual_adjusted s)
     (slice_interval ex_ids ex_markers [] 20 0.5 0.3) \<and>
   filter (\<lambda>s. enabled s \<and> seg_type s = ''keep'')
     (slice_backtrack ex_ids ex_markers [] 20 0.5 0.3) =
     slice_backtrack ex_ids ex_markers [] 20 0.5 0.3 \<and>
   filter (\<lambda>s. enabled s \<and> seg_type s = ''keep'')
     (slice_interval ex_ids ex_markers [] 20 0.5 0.3) =
     slice_interval ex_ids ex_markers [] 20 0.5 0.3"
proof -
  have b: "slice_backtrack ex_ids ex_markers [] 20 0.5 0.3 \<noteq> []"
    by (simp add: slice_backtrack_def ex_markers_def ex_marker_def backtrack_step_def
        merge_overlapping_def)
  have i: "slice_interval ex_ids ex_markers [] 20 0.5 0.3 \<noteq> []"
    by (simp add: slice_interval_def ex_markers_def ex_marker_def interval_step_def
        interval_candidate_def merge_overlapping_def)
  show ?thesis
    using b i sliced_segments_enabled_keep [of ex_ids ex_markers "[]" 20 "0.5" "0.3"]
    unfolding list_all_iff by blast
qed

subsection \<open>Backtrack slicing\<close>

text \<open>
  Claim C2. One NG marker at [2.0, 2.5] and one OK marker at [10.0, 10.5], with
  total duration 20, pre-buffer 0.5 and post-buffer 0.3: \<open>slice_backtrack\<close> returns
  exactly one segment, with start 2.3 and end 9.8. The words and confidences of the
  markers, the identifier supply and the transcript are arbitrary, and the result is
  the same for either order of the two markers.
\<close>

theorem slice_backtrack_literal_scenario:
  "slice_backtrack ids
     [\<lparr>m_type = NG, m_word = w1, m_start = 2.0, m_end = 2.5, m_confidence = c1\<rparr>,
      \<lparr>m_type = OK, m_word = w2, m_start = 10.0, m_end = 10.5, m_confidence = c2\<rparr>]
     transcript 20 0.5 0.3 =
   [new_segment (ids 0) 2.3 9.8
      (Some \<lparr>m_type = OK, m_word = w2, m_start = 10.0, m_end = 10.5, m_confidence = c2\<rparr>)] \<and>
   slice_backtrack ids
     [\<lparr>m_type = OK, m_word = w2, m_start = 10.0, m_end = 10.5, m_confidence = c2\<rparr>,
      \<lparr>m_type = NG, m_word = w1, m_start = 2.0, m_end = 2.5, m_confidence = c1\<rparr>]
     transcript 20 0.5 0.3 =
   [new_segment (ids 0) 2.3 9.8
      (Some \<lparr>m_type = OK, m_word = w2, m_start = 10.0, m_end = 10.5, m_confidence = c2\<rparr>)]"
  by (simp add: slice_backtrack_def backtrack_step_def merge_overlapping_def round3_def
      py_round_def new_segment_def)

text \<open>
  Claim C3, as amended. For a marker list with no OK marker, \<open>slice_backtrack\<close> returns
  exactly one keep segment spanning [0, totalDuration] when totalDuration is positive,
  and no segment otherwise (the source guards the fallback with
  \<^verbatim>\<open>if total_duration > 0\<close>).
\<close>

theorem slice_backtrack_no_ok:
  assumes "\<forall>m \<in> set markers. m_type m \<noteq> OK"
  shows "slice_backtrack ids markers transcript dur pre post =
           (if dur > 0
            then [\<lparr>seg_id = ids 0, seg_type = ''keep'', seg_start = 0, seg_end = dur,
                   trigger_marker = None, enabled = True, manual_adjusted = False\<rparr>]
            else [])"
proof -
  from assms have "filter (\<lambda>m. m_type m = OK) markers = []"
    by (simp add: filter_empty_conv)
  then show ?thesis by (simp add: slice_backtrack_def new_segment_def)
qed

text \<open>With total duration 60.0 the result is the one segment [0.0, 60.0].\<close>

theorem slice_backtrack_no_ok_witness:
  "OK \<notin> set (map m_type [ex_marker NG 2 2.5, ex_marker START 3 4]) \<and>
   slice_backtrack ex_ids [ex_marker NG 2 2.5, ex_marker START 3 4] [] 60.0 0.5 0.3 =
     [\<lparr>seg_id = ex_ids 0, seg_type = ''keep'', seg_start = 0.0, seg_end = 60.0,
       trigger_marker = None, enabled = True, manual_adjusted = False\<rparr>]"
proof -
  have h: "\<forall>m \<in> set [ex_marker NG 2 2.5, ex_marker START 3 4]. m_type m \<noteq> OK"
    by (simp add: ex_marker_def)
  show ?thesis
    using slice_backtrack_no_ok [OF h, of ex_ids "[]" "60.0" "0.5" "0.3"]
    by (simp add: ex_marker_def)
qed

text \<open>
  The claim as stated (every total duration) fails at total duration 0: no segment is
  returned.
\<close>

theorem slice_backtrack_no_ok_counterexample:
  "OK \<notin> set (map m_type [ex_marker NG 2 2.5]) \<and>
   slice_backtrack ex_ids [ex_marker NG 2 2.5] [] 0 0.5 0.3 = [] \<and>
   length (slice_backtrack ex_ids [ex_marker NG 2 2.5] [] 0 0.5 0.3) \<noteq> 1"
  by (simp add: slice_backtrack_def ex_marker_def)

subsection \<open>Non-overlap and order of the sliced segments\<close>

lemma short_list_non_overlapping: "length xs \<le> 1 \<Longrightarrow> pairwise_non_overlapping xs"
  by (auto simp: pairwise_non_overlapping_def)

lemma short_list_sorted_by_start: "length xs \<le> 1 \<Longrightarrow> sorted_by_start xs"
  by (cases xs) (auto simp: sorted_by_start_def)

lemma merge_overlapping_non_overlapping: "pairwise_non_overlapping (merge_overlapping L)"
  by (rule gapped_non_overlapping [OF merge_overlapping_gapped])

lemma slice_backtrack_cases:
  "length (slice_backtrack ids markers transcript dur pre post) \<le> 1 \<or>
   (\<exists>L. slice_backtrack ids markers transcript dur pre post = merge_overlapping L)"
  by (auto simp: slice_backtrack_def Let_def)

lemma slice_interval_cases:
  "length (slice_interval ids markers transcript dur pre post) \<le> 1 \<or>
   (\<exists>L. slice_interval ids markers transcript dur pre post = merge_overlapping L)"
  by (auto simp: slice_interval_def Let_def)

text \<open>
  Claim C1. For every list of segments the result of the overlap-merge pass is pairwise
  non-overlapping (no two returned segments have time ranges that share a point) and
  sorted ascending by start; so is every list that \<open>slice_backtrack\<close> or
  \<open>slice_interval\<close> returns.
\<close>

theorem merge_overlapping_invariant:
  "pairwise_non_overlapping (merge_overlapping L) \<and>
   sorted_by_start (merge_overlapping L) \<and>
   pairwise_non_overlapping (slice_backtrack ids markers transcript dur pre post) \<and>
   sorted_by_start (slice_backtrack ids markers transcript dur pre post) \<and>
   pairwise_non_overlapping (slice_interval ids markers transcript dur pre post) \<and>
   sorted_by_start (slice_interval ids markers transcript dur pre post)"
proof -
  have m: "pairwise_non_overlapping xs \<and> sorted_by_start xs"
    if "length xs \<le> 1 \<or> (\<exists>L. xs = merge_overlapping L)" for xs
    using that short_list_non_overlapping short_list_sorted_by_start
      merge_overlapping_non_overlapping merge_overlapping_sorted_by_start by auto
  show ?thesis
    using m [OF slice_backtrack_cases [of ids markers transcript dur pre post]]
      m [OF slice_interval_cases [of ids markers transcript dur pre post]]
      merge_overlapping_non_overlapping [of L] merge_overlapping_sorted_by_start [of L]
    by simp
qed

text \<open>The theorem at a list in which two merges happen, and at the example markers.\<close>

theorem merge_overlapping_invariant_witness:
  "merge_overlapping ex_segs =
     [ex_seg 1 0 3, ex_seg 0 5 7] \<and>
   pairwise_non_overlapping [ex_seg 1 0 3, ex_seg 0 5 7] \<and>
   sorted_by_start [ex_seg 1 0 3, ex_seg 0 5 7] \<and>
   pairwise_non_overlapping (slice_backtrack ex_ids ex_markers [] 20 0.5 0.3) \<and>
   sorted_by_start (slice_backtrack ex_ids ex_markers [] 20 0.5 0.3) \<and>
   pairwise_non_overlapping (slice_interval ex_ids ex_markers [] 20 0.5 0.3) \<and>
   sorted_by_start (slice_interval ex_ids ex_markers [] 20 0.5 0.3)"
proof -
  have e: "merge_overlapping ex_segs =
     [ex_seg 1 0 3, ex_seg 0 5 7]"
    by (simp add: merge_overlapping_def ex_segs_def ex_seg_def new_segment_def)
  show ?thesis
    using merge_overlapping_invariant [of ex_segs ex_ids ex_markers "[]" 20 "0.5" "0.3"]
    unfolding e by simp
qed

subsection \<open>The groups of the merge pass\<close>

lemma group_from_not_Nil: "g \<noteq> [] \<Longrightarrow> \<forall>h \<in> set (group_from g e rest). h \<noteq> []"
  by (induction rest arbitrary: g e) auto

lemma concat_group_from: "concat (group_from g e rest) = g @ rest"
  by (induction rest arbitrary: g e) auto

lemma group_result_snoc:
  "g \<noteq> [] \<Longrightarrow>
   group_result (g @ [seg]) = (group_result g)\<lparr>seg_end := max (seg_end (group_result g)) (seg_end seg)\<rparr>"
  by (simp add: group_result_def max.commute)

lemma merge_from_groups:
  "g \<noteq> [] \<Longrightarrow>
   merge_from (group_result g) rest = map group_result (group_from g (seg_end (group_result g)) rest)"
proof (induction rest arbitrary: g)
  case Nil
  then show ?case by simp
next
  case (Cons seg rest)
  show ?case
  proof (cases "seg_start seg \<le> seg_end (group_result g) + 0.05")
    case True
    have e: "seg_end (group_result (g @ [seg])) = max (seg_end (group_result g)) (seg_end seg)"
      using Cons.prems by (simp add: group_result_snoc)
    have "merge_from (group_result (g @ [seg])) rest =
            map group_result (group_from (g @ [seg]) (seg_end (group_result (g @ [seg]))) rest)"
      by (rule Cons.IH) simp
    with True e Cons.prems show ?thesis by (simp add: group_result_snoc)
  next
    case False
    have s: "group_result [seg] = seg" by (simp add: group_result_def)
    have "merge_from (group_result [seg]) rest =
            map group_result (group_from [seg] (seg_end (group_result [seg])) rest)"
      by (rule Cons.IH) simp
    with False s show ?thesis by simp
  qed
qed

lemma merge_overlapping_groups:
  "merge_overlapping L = map group_result (merge_groups L)"
proof (cases "sort_key seg_start L")
  case Nil
  then have "L = []" by (metis length_sort length_0_conv)
  then show ?thesis by (simp add: merge_groups_def)
next
  case (Cons first rest)
  have s: "group_result [first] = first" by (simp add: group_result_def)
  have "merge_from (group_result [first]) rest =
          map group_result (group_from [first] (seg_end (group_result [first])) rest)"
    by (rule merge_from_groups) simp
  with s Cons show ?thesis
    by (simp add: merge_overlapping_sorted merge_groups_def)
qed

lemma concat_merge_groups: "concat (merge_groups L) = sort_key seg_start L"
  by (cases "sort_key seg_start L") (simp_all add: merge_groups_def concat_group_from)

lemma merge_groups_not_Nil: "\<forall>g \<in> set (merge_groups L). g \<noteq> []"
proof (cases "sort_key seg_start L")
  case Nil
  then show ?thesis by (simp add: merge_groups_def)
next
  case (Cons first rest)
  have "\<forall>h \<in> set (group_from [first] (seg_end first) rest). h \<noteq> []"
    by (rule group_from_not_Nil) simp
  with Cons show ?thesis by (simp add: merge_groups_def)
qed

lemma sorted_concat_hd:
  "sorted (map f (concat gs)) \<Longrightarrow> \<forall>g \<in> set gs. \<forall>s \<in> set g. f (hd g) \<le> f s"
proof (induction gs)
  case Nil
  then show ?case by simp
next
  case (Cons g gs)
  from Cons.prems have sg: "sorted (map f g)" and sgs: "sorted (map f (concat gs))"
    by (simp_all add: sorted_append)
  have "\<forall>s \<in> set g. f (hd g) \<le> f s"
    using sg by (cases g) auto
  with Cons.IH [OF sgs] show ?case by simp
qed

lemma merge_groups_hd_earliest:
  "\<forall>g \<in> set (merge_groups L). \<forall>s \<in> set g. seg_start (hd g) \<le> seg_start s"
proof (rule sorted_concat_hd)
  show "sorted (map seg_start (concat (merge_groups L)))"
    by (simp add: concat_merge_groups)
qed

lemma mem_tl: "s \<in> set (tl h) \<Longrightarrow> s \<in> set h"
  by (cases h) simp_all

lemma distinct_concat_tl_hd:
  assumes "distinct (map f (concat gs))" and "\<forall>g \<in> set gs. g \<noteq> []"
  shows "\<forall>g \<in> set gs. \<forall>s \<in> set (tl g). \<forall>h \<in> set gs. f s \<noteq> f (hd h)"
  using assms
proof (induction gs)
  case Nil
  then show ?case by simp
next
  case (Cons g gs)
  from Cons.prems obtain x xs where g: "g = x # xs" by (cases g) auto
  from Cons.prems g have dx: "f x \<notin> f ` set xs" and dxs: "distinct (map f xs)"
    and dgs: "distinct (map f (concat gs))"
    and disj: "f ` set (x # xs) \<inter> f ` set (concat gs) = {}"
    by auto
  have hd_in: "hd h \<in> set (concat gs)" if "h \<in> set gs" for h
  proof -
    from that Cons.prems(2) have "h \<noteq> []" by simp
    then have "hd h \<in> set h" by simp
    with that show ?thesis by auto
  qed
  have tl_in: "s \<in> set (concat gs)" if "h \<in> set gs" "s \<in> set (tl h)" for h s
    using that mem_tl [of s h] by auto
  have IH: "\<forall>g \<in> set gs. \<forall>s \<in> set (tl g). \<forall>h \<in> set gs. f s \<noteq> f (hd h)"
    using Cons.IH dgs Cons.prems(2) by simp
  show ?case
  proof (intro ballI)
    fix g' s h
    assume g': "g' \<in> set (g # gs)" and s: "s \<in> set (tl g')" and h: "h \<in> set (g # gs)"
    show "f s \<noteq> f (hd h)"
    proof (cases "g' = g")
      case True
      with s g have sx: "s \<in> set xs" by simp
      show ?thesis
      proof (cases "h = g")
        case True
        from sx have "f s \<in> f ` set xs" by simp
        with dx True g show ?thesis by auto
      next
        case False
        with h have "hd h \<in> set (concat gs)" using hd_in by simp
        then have "f (hd h) \<in> f ` set (concat gs)" by (rule imageI)
        moreover from sx have "f s \<in> f ` set (x # xs)" by simp
        ultimately show ?thesis using disj by (metis disjoint_iff)
      qed
    next
      case False
      with g' have g'in: "g' \<in> set gs" by simp
      with s have sc: "s \<in> set (concat gs)" using tl_in by blast
      show ?thesis
      proof (cases "h = g")
        case True
        from sc have "f s \<in> f ` set (concat gs)" by (rule imageI)
        moreover from True g have "f (hd h) \<in> f ` set (x # xs)" by simp
        ultimately show ?thesis using disj by (metis disjoint_iff)
      next
        case False
        with h have "h \<in> set gs" by simp
        with IH g'in s show ?thesis by blast
      qed
    qed
  qed
qed

lemma distinct_map_insort_key:
  "distinct (map f (insort_key k x xs)) \<longleftrightarrow> f x \<notin> f ` set xs \<and> distinct (map f xs)"
  by (induction xs) (auto simp: set_insort_key)

lemma distinct_map_sort_key: "distinct (map f (sort_key k xs)) \<longleftrightarrow> distinct (map f xs)"
  by (induction xs) (simp_all add: distinct_map_insort_key)

lemma merge_groups_absorbed:
  assumes "distinct (map f L)"
  shows "\<forall>g \<in> set (merge_groups L). \<forall>s \<in> set (tl g). \<forall>h \<in> set (merge_groups L). f s \<noteq> f (hd h)"
proof (rule distinct_concat_tl_hd)
  show "distinct (map f (concat (merge_groups L)))"
    using assms by (simp add: concat_merge_groups distinct_map_sort_key)
  show "\<forall>g \<in> set (merge_groups L). g \<noteq> []" by (rule merge_groups_not_Nil)
qed

lemma group_result_fields:
  "seg_id (group_result g) = seg_id (hd g) \<and>
   seg_type (group_result g) = seg_type (hd g) \<and>
   seg_start (group_result g) = seg_start (hd g) \<and>
   trigger_marker (group_result g) = trigger_marker (hd g) \<and>
   enabled (group_result g) = enabled (hd g) \<and>
   manual_adjusted (group_result g) = manual_adjusted (hd g) \<and>
   seg_end (group_result g) = Max (seg_end ` set g)"
  by (simp add: group_result_def)

text \<open>
  Claim C10, as amended. The merge pass cuts the input, sorted by start, into
  consecutive groups, none of them empty, and returns one segment per group, in order:
  the group's first segment, which starts earliest in the group, with \<open>id\<close>, \<open>start\<close>,
  \<open>type\<close>, \<open>trigger_marker\<close>, \<open>enabled\<close> and \<open>manual_adjusted\<close> unchanged and \<open>end\<close>
  set to the largest end of the group, which is not below its own end. If the
  identifiers of the input segments are pairwise distinct, the identifier of a segment
  absorbed into a group (any but the first) is not the identifier of a returned
  segment; if the trigger markers of the input segments are pairwise distinct, the
  trigger marker of an absorbed segment is not the trigger marker of a returned segment.
\<close>

theorem merge_overlapping_frame:
  "concat (merge_groups L) = sort_key seg_start L \<and>
   length (merge_overlapping L) = length (merge_groups L) \<and>
   (\<forall>i < length (merge_groups L).
      merge_groups L ! i \<noteq> [] \<and>
      (\<forall>s \<in> set (merge_groups L ! i). seg_start (hd (merge_groups L ! i)) \<le> seg_start s) \<and>
      merge_overlapping L ! i =
        (hd (merge_groups L ! i))\<lparr>seg_end := Max (seg_end ` set (merge_groups L ! i))\<rparr> \<and>
      seg_end (hd (merge_groups L ! i)) \<le> seg_end (merge_overlapping L ! i) \<and>
      (distinct (map seg_id L) \<longrightarrow>
         (\<forall>s \<in> set (tl (merge_groups L ! i)). seg_id s \<notin> seg_id ` set (merge_overlapping L))) \<and>
      (distinct (map trigger_marker L) \<longrightarrow>
         (\<forall>s \<in> set (tl (merge_groups L ! i)).
            trigger_marker s \<notin> trigger_marker ` set (merge_overlapping L))))"
proof (intro conjI allI impI ballI)
  show "concat (merge_groups L) = sort_key seg_start L" by (rule concat_merge_groups)
  show "length (merge_overlapping L) = length (merge_groups L)"
    by (simp add: merge_overlapping_groups)
next
  fix i assume i: "i < length (merge_groups L)"
  then have mem: "merge_groups L ! i \<in> set (merge_groups L)" by simp
  show ne: "merge_groups L ! i \<noteq> []" using merge_groups_not_Nil mem by blast
  show r: "merge_overlapping L ! i =
        (hd (merge_groups L ! i))\<lparr>seg_end := Max (seg_end ` set (merge_groups L ! i))\<rparr>"
    using i by (simp add: merge_overlapping_groups group_result_def)
  have "hd (merge_groups L ! i) \<in> set (merge_groups L ! i)" using ne by simp
  then have "seg_end (hd (merge_groups L ! i)) \<le> Max (seg_end ` set (merge_groups L ! i))"
    by simp
  with r show "seg_end (hd (merge_groups L ! i)) \<le> seg_end (merge_overlapping L ! i)" by simp
  {
    fix s assume "s \<in> set (merge_groups L ! i)"
    with merge_groups_hd_earliest mem
    show "seg_start (hd (merge_groups L ! i)) \<le> seg_start s" by blast
  }
  {
    fix s assume d: "distinct (map seg_id L)" and s: "s \<in> set (tl (merge_groups L ! i))"
    from merge_groups_absorbed [OF d] mem s
    have "\<forall>h \<in> set (merge_groups L). seg_id s \<noteq> seg_id (hd h)" by blast
    then show "seg_id s \<notin> seg_id ` set (merge_overlapping L)"
      by (auto simp: merge_overlapping_groups group_result_fields)
  }
  {
    fix s assume d: "distinct (map trigger_marker L)" and s: "s \<in> set (tl (merge_groups L ! i))"
    from merge_groups_absorbed [OF d] mem s
    have "\<forall>h \<in> set (merge_groups L). trigger_marker s \<noteq> trigger_marker (hd h)" by blast
    then show "trigger_marker s \<notin> trigger_marker ` set (merge_overlapping L)"
      by (auto simp: merge_overlapping_groups group_result_fields)
  }
qed


text \<open>
  The theorem at a list of four segments with distinct identifiers and distinct trigger
  markers, merged into two: neither the identifiers nor the trigger markers of the two
  absorbed segments are in the result.
\<close>

theorem merge_overlapping_frame_witness:
  "merge_groups ex_tsegs =
     [[ex_tseg 1 0 2, ex_tseg 2 1.5 3], [ex_tseg 0 5 7, ex_tseg 3 7.04 6]] \<and>
   merge_overlapping ex_tsegs = [(ex_tseg 1 0 2)\<lparr>seg_end := 3\<rparr>, ex_tseg 0 5 7] \<and>
   distinct (map seg_id ex_tsegs) \<and>
   distinct (map trigger_marker ex_tsegs) \<and>
   seg_id (ex_tseg 2 1.5 3) \<notin> seg_id ` set (merge_overlapping ex_tsegs) \<and>
   seg_id (ex_tseg 3 7.04 6) \<notin> seg_id ` set (merge_overlapping ex_tsegs) \<and>
   trigger_marker (ex_tseg 2 1.5 3) \<notin> trigger_marker ` set (merge_overlapping ex_tsegs) \<and>
   trigger_marker (ex_tseg 3 7.04 6) \<notin> trigger_marker ` set (merge_overlapping ex_tsegs)"
proof -
  have g: "merge_groups ex_tsegs =
      [[ex_tseg 1 0 2, ex_tseg 2 1.5 3], [ex_tseg 0 5 7, ex_tseg 3 7.04 6]]"
    by (simp add: merge_groups_def ex_tsegs_def ex_tseg_def new_segment_def)
  have m: "merge_overlapping ex_tsegs = [(ex_tseg 1 0 2)\<lparr>seg_end := 3\<rparr>, ex_tseg 0 5 7]"
    by (simp add: merge_overlapping_def ex_tsegs_def ex_tseg_def new_segment_def)
  have d: "distinct (map seg_id ex_tsegs)"
    by (simp add: ex_tsegs_def ex_tseg_def new_segment_def ex_ids_def numeral_2_eq_2
        numeral_3_eq_3)
  have t: "distinct (map trigger_marker ex_tsegs)"
    by (simp add: ex_tsegs_def ex_tseg_def new_segment_def ex_marker_def)
  have f: "\<forall>i < length (merge_groups ex_tsegs).
      (distinct (map seg_id ex_tsegs) \<longrightarrow>
       (\<forall>s \<in> set (tl (merge_groups ex_tsegs ! i)).
          seg_id s \<notin> seg_id ` set (merge_overlapping ex_tsegs))) \<and>
      (distinct (map trigger_marker ex_tsegs) \<longrightarrow>
       (\<forall>s \<in> set (tl (merge_groups ex_tsegs ! i)).
          trigger_marker s \<notin> trigger_marker ` set (merge_overlapping ex_tsegs)))"
    using merge_overlapping_frame [of ex_tsegs] by blast
  have l0: "0 < length (merge_groups ex_tsegs)" and l1: "1 < length (merge_groups ex_tsegs)"
    by (simp_all add: g)
  have s0: "ex_tseg 2 1.5 3 \<in> set (tl (merge_groups ex_tsegs ! 0))" by (simp add: g)
  have s1: "ex_tseg 3 7.04 6 \<in> set (tl (merge_groups ex_tsegs ! 1))" by (simp add: g)
  from f l0 d s0
  have a: "seg_id (ex_tseg 2 1.5 3) \<notin> seg_id ` set (merge_overlapping ex_tsegs)" by blast
  from f l1 d s1
  have b: "seg_id (ex_tseg 3 7.04 6) \<notin> seg_id ` set (merge_overlapping ex_tsegs)" by blast
  from f l0 t s0
  have c: "trigger_marker (ex_tseg 2 1.5 3) \<notin> trigger_marker ` set (merge_overlapping ex_tsegs)"
    by blast
  from f l1 t s1
  have e: "trigger_marker (ex_tseg 3 7.04 6) \<notin> trigger_marker ` set (merge_overlapping ex_tsegs)"
    by blast
  from g m d t a b c e show ?thesis by blast
qed

text \<open>
  The claim as stated says that the trigger markers of absorbed segments never appear in
  the output. Two overlapping segments with distinct identifiers and the same trigger
  marker form one group; the second is absorbed, and its trigger marker is the trigger
  marker of the segment returned.
\<close>

theorem merge_overlapping_frame_counterexample:
  "merge_groups ex_shared = [ex_shared] \<and>
   ex_shared ! 1 \<in> set (tl (merge_groups ex_shared ! 0)) \<and>
   merge_overlapping ex_shared = [new_segment (ex_ids 0) 0 3 (Some (ex_marker OK 10 10.5))] \<and>
   trigger_marker (ex_shared ! 1) \<in> trigger_marker ` set (merge_overlapping ex_shared)"
  by (simp add: merge_groups_def merge_overlapping_def ex_shared_def new_segment_def)

subsection \<open>Interval slicing\<close>

lemma interval_candidate_start:
  "fst (interval_candidate sm em dur pre post start_m) = max 0 (m_end start_m + post - pre)"
  by (simp add: interval_candidate_def Let_def split: list.splits)

lemma first_match_nearest:
  assumes "sorted (map m_start ms)" and "filter (\<lambda>e. t < m_start e) ms = y # ys"
  shows "nearest_following t ms y"
proof -
  from assms(1) have "sorted (map m_start (filter (\<lambda>e. t < m_start e) ms))"
    by (rule sorted_filter)
  with assms(2) have le: "\<forall>z \<in> set ys. m_start y \<le> m_start z" by simp
  have mem: "set (y # ys) = {e \<in> set ms. t < m_start e}"
    using assms(2) set_filter [of "\<lambda>e. t < m_start e" ms] by simp
  then have "y \<in> set ms" "t < m_start y" by auto
  moreover have "m_start y \<le> m_start e" if "e \<in> set ms" "t < m_start e" for e
  proof -
    from that mem have "e \<in> set (y # ys)" by simp
    with le show ?thesis by auto
  qed
  ultimately show ?thesis by (simp add: nearest_following_def)
qed

lemma interval_candidate_end:
  assumes sm: "sorted (map m_start sm)" and em: "sorted (map m_start em)"
  shows "interval_end_spec sm em dur start_m (snd (interval_candidate sm em dur pre post start_m))"
proof (cases "filter (\<lambda>e. m_end start_m < m_start e) em")
  case (Cons end_m rest)
  from first_match_nearest [OF em Cons] have n: "nearest_following (m_end start_m) em end_m" .
  then have "\<exists>e \<in> set em. m_end start_m < m_start e" by (auto simp: nearest_following_def)
  moreover have "snd (interval_candidate sm em dur pre post start_m) = min dur (m_start end_m)"
    using Cons by (simp add: interval_candidate_def)
  ultimately show ?thesis using n by (auto simp: interval_end_spec_def)
next
  case Nil
  then have none: "\<not> (\<exists>e \<in> set em. m_end start_m < m_start e)"
    by (simp add: filter_empty_conv)
  show ?thesis
  proof (cases "filter (\<lambda>s. m_end start_m < m_start s) sm")
    case (Cons s rest)
    from first_match_nearest [OF sm Cons] have n: "nearest_following (m_end start_m) sm s" .
    then have "\<exists>e \<in> set sm. m_end start_m < m_start e" by (auto simp: nearest_following_def)
    moreover have "snd (interval_candidate sm em dur pre post start_m) = m_start s"
      using Nil Cons by (simp add: interval_candidate_def)
    ultimately show ?thesis using n none by (auto simp: interval_end_spec_def)
  next
    case Nil2: Nil
    then have none2: "\<not> (\<exists>e \<in> set sm. m_end start_m < m_start e)"
      by (simp add: filter_empty_conv)
    have "snd (interval_candidate sm em dur pre post start_m) = dur"
      using Nil Nil2 by (simp add: interval_candidate_def)
    with none none2 show ?thesis by (simp add: interval_end_spec_def)
  qed
qed

lemma interval_loop_kept:
  "interval_loop ids sm em dur pre post segments ms =
   segments @ interval_kept ids sm em dur pre post (length segments) ms"
proof (induction ms arbitrary: segments)
  case Nil
  then show ?case by (simp add: interval_kept_def)
next
  case (Cons m ms)
  show ?case
    by (simp add: Cons.IH interval_step_def interval_kept_def Let_def enumerate_Suc_eq)
qed


text \<open>
  Claim C4, as amended. Let the marker list be sorted by start, as \<open>detect_markers\<close>
  returns it. For every START marker the candidate start is
  max(0, START.end + postBuffer - preBuffer). If some END marker has
  END.start > START.end, the candidate end is min(totalDuration, END.start) for the
  nearest such END marker; otherwise it is the start of the nearest START marker with
  start > START.end, or totalDuration if there is none. \<open>slice_interval\<close> returns the
  merge of the candidates with end > start + 0.1, each with both bounds rounded to
  three decimals.
\<close>

theorem slice_interval_candidate:
  assumes "sorted (map m_start markers)"
  shows "let start_markers = filter (\<lambda>m. m_type m = START) markers;
             end_markers = filter (\<lambda>m. m_type m = END) markers
         in (\<forall>start_m \<in> set start_markers.
               fst (interval_candidate start_markers end_markers dur pre post start_m) =
                 max 0 (m_end start_m + post - pre) \<and>
               interval_end_spec start_markers end_markers dur start_m
                 (snd (interval_candidate start_markers end_markers dur pre post start_m))) \<and>
            slice_interval ids markers transcript dur pre post =
              merge_overlapping
                (interval_kept ids start_markers end_markers dur pre post 0 start_markers)"
proof -
  let ?sm = "filter (\<lambda>m. m_type m = START) markers"
  let ?em = "filter (\<lambda>m. m_type m = END) markers"
  have sm: "sorted (map m_start ?sm)" and em: "sorted (map m_start ?em)"
    using assms by (rule sorted_filter)+
  have "slice_interval ids markers transcript dur pre post =
          merge_overlapping (interval_kept ids ?sm ?em dur pre post 0 ?sm)"
  proof (cases "?sm = []")
    case True
    then show ?thesis by (simp add: slice_interval_def interval_kept_def Let_def)
  next
    case False
    then show ?thesis by (simp add: slice_interval_def interval_loop_kept Let_def)
  qed
  then show ?thesis
    using interval_candidate_start interval_candidate_end [OF sm em] by (simp add: Let_def)
qed

text \<open>
  The theorem at the example markers: a START marker ending at 0.1 followed by an END
  marker starting at 5 gives the one segment [0, 5].
\<close>

theorem slice_interval_candidate_witness:
  "sorted (map m_start ex_markers) \<and>
   slice_interval ex_ids ex_markers [] 20 0.5 0.3 =
     [new_segment (ex_ids 0) 0 5 (Some (ex_marker START 0 0.1))]"
proof -
  have h: "sorted (map m_start ex_markers)"
    by (simp add: ex_markers_def ex_marker_def)
  have "slice_interval ex_ids ex_markers [] 20 0.5 0.3 =
          merge_overlapping
            (interval_kept ex_ids (filter (\<lambda>m. m_type m = START) ex_markers)
               (filter (\<lambda>m. m_type m = END) ex_markers) 20 0.5 0.3 0
               (filter (\<lambda>m. m_type m = START) ex_markers))"
    using slice_interval_candidate [OF h, of 20 "0.5" "0.3" ex_ids "[]"]
    by (simp only: Let_def)
  also have "\<dots> = [new_segment (ex_ids 0) 0 5 (Some (ex_marker START 0 0.1))]"
    by (simp add: interval_kept_def interval_candidate_def ex_markers_def ex_marker_def
        merge_overlapping_def round3_def py_round_def)
  finally show ?thesis using h by simp
qed

text \<open>
  The claim as stated gives the candidate [START.end + postBuffer - preBuffer,
  END.start]. For a START marker ending at 0.1 and an END marker starting at 5, with
  pre-buffer 0.5 and post-buffer 0.3, that is [-0.1, 5]: the code clamps the start to 0,
  and with total duration 4 it also caps the end at 4.
\<close>

theorem slice_interval_candidate_counterexample:
  "m_end (ex_marker START 0 0.1) < m_start (ex_marker END 5 5.5) \<and>
   interval_candidate [ex_marker START 0 0.1] [ex_marker END 5 5.5] 20 0.5 0.3
     (ex_marker START 0 0.1) = (0, 5) \<and>
   interval_candidate [ex_marker START 0 0.1] [ex_marker END 5 5.5] 20 0.5 0.3
     (ex_marker START 0 0.1) \<noteq>
     (m_end (ex_marker START 0 0.1) + 0.3 - 0.5, m_start (ex_marker END 5 5.5)) \<and>
   interval_candidate [ex_marker START 0 0.1] [ex_marker END 5 5.5] 4 0.5 0.3
     (ex_marker START 0 0.1) = (0, 4) \<and>
   slice_interval ex_ids [ex_marker START 0 0.1, ex_marker END 5 5.5] [] 20 0.5 0.3 =
     [new_segment (ex_ids 0) 0 5 (Some (ex_marker START 0 0.1))]"
  by (simp add: interval_candidate_def ex_marker_def slice_interval_def interval_step_def
      merge_overlapping_def round3_def py_round_def)

subsection \<open>SRT time codes\<close>

text \<open>
  Claim C8 at the input 0.9996 seconds. Rounded to the nearest millisecond this is
  1000 ms, that is 00:00:01,000. The code rounds the fractional part on its own and
  does not carry into the seconds: the millisecond field is 1000, four digits.
\<close>

theorem seconds_to_srt_tc_no_carry:
  "seconds_to_srt_tc 0.9996 = ''00:00:00,1000'' \<and>
   py_round (0.9996 * 1000) = 1000 \<and>
   seconds_to_srt_tc 1 = ''00:00:01,000''"
  by (simp add: seconds_to_srt_tc_def py_round_def py_mod1_def py_int_def fmt_d_def zfill_def
      digit_char_def numeral_2_eq_2)

subsection \<open>SRT export\<close>

lemma cue_text_filtered: "cue_text kws t = filtered_text kws t"
  by (simp add: cue_text_def filtered_text_def)

lemma srt_sentence_step_cue:
  "srt_sentence_step kws seg off ts (entries, n) =
     (case srt_cue_of kws off seg ts of
        None \<Rightarrow> (entries, n)
      | Some (a, b, t) \<Rightarrow> (entries @ [srt_entry n a b t], n + 1))"
  by (auto simp: srt_sentence_step_def srt_cue_of_def cue_text_filtered Let_def)

lemma srt_sentence_loop:
  "fold (srt_sentence_step kws seg off) transcript (entries, n) =
     (entries @ map (\<lambda>(k, a, b, t). srt_entry k a b t)
                  (enumerate n (List.map_filter (srt_cue_of kws off seg) transcript)),
      n + length (List.map_filter (srt_cue_of kws off seg) transcript))"
proof (induction transcript arbitrary: entries n)
  case Nil
  then show ?case by (simp add: List.map_filter_simps)
next
  case (Cons ts transcript)
  show ?case
  proof (cases "srt_cue_of kws off seg ts")
    case None
    then show ?thesis
      by (simp add: srt_sentence_step_cue Cons.IH List.map_filter_simps)
  next
    case (Some c)
    obtain a b t where c: "c = (a, b, t)" by (cases c)
    with Some show ?thesis
      by (simp add: srt_sentence_step_cue Cons.IH List.map_filter_simps)
  qed
qed

lemma srt_segment_loop:
  "fold (srt_segment_step kws transcript) segs ((entries, n), off) =
     ((entries @ map (\<lambda>(k, a, b, t). srt_entry k a b t)
                   (enumerate n (cues_from kws transcript off segs)),
       n + length (cues_from kws transcript off segs)),
      off + sum_list (map (\<lambda>s. seg_end s - seg_start s) segs))"
proof (induction segs arbitrary: entries n off)
  case Nil
  then show ?case by simp
next
  case (Cons seg segs)
  have step: "srt_segment_step kws transcript seg ((entries, n), off) =
      ((entries @ map (\<lambda>(k, a, b, t). srt_entry k a b t)
                    (enumerate n (List.map_filter (srt_cue_of kws off seg) transcript)),
        n + length (List.map_filter (srt_cue_of kws off seg) transcript)),
       off + (seg_end seg - seg_start seg))"
    by (simp add: srt_segment_step_def srt_sentence_loop)
  show ?case
    by (simp add: step Cons.IH enumerate_append_eq add.assoc)
qed

lemma cues_from_indexed:
  "cues_from kws transcript off segs =
     concat (map (\<lambda>i. List.map_filter (srt_cue_of kws (off + output_offset segs i) (segs ! i))
                         transcript) [0..<length segs])"
proof (induction segs arbitrary: off)
  case Nil
  then show ?case by simp
next
  case (Cons seg segs)
  have "[0..<length (seg # segs)] = 0 # map Suc [0..<length segs]"
    by (simp add: upt_conv_Cons map_Suc_upt del: upt_Suc)
  then show ?case
    by (simp add: Cons.IH output_offset_def o_def add.assoc del: upt_Suc)
qed

lemma cues_from_srt_cues: "cues_from kws transcript 0 segs = srt_cues kws transcript segs"
  by (simp add: cues_from_indexed srt_cues_def)

text \<open>
  Claim C6, as amended. The document \<open>export_srt\<close> returns is the rendering, numbered
  from 1 and joined by newlines, of these cues: for each enabled keep segment in order of
  start, and each transcript sentence with sentence.end > segment.start and
  sentence.start < segment.end, no cue if the filtered text is empty, and otherwise one
  cue with the filtered text, from outputOffset + (clippedStart - segment.start) to
  outputOffset + (clippedEnd - segment.start), where the span is the sentence clipped to
  the segment and outputOffset is the sum of the durations of the enabled keep segments
  before this one. The filtered text is the sentence text itself when no filter keyword
  is configured (it is not trimmed then); with keywords, each lower-cased keyword in turn
  is removed ignoring case and the text is trimmed after each removal.
\<close>

theorem export_srt_cues:
  "export_srt segments transcript filter_keywords =
     join newline
       (render_cues
          (srt_cues (map lower (case filter_keywords of None \<Rightarrow> [] | Some ks \<Rightarrow> ks)) transcript
             (sort_key seg_start (filter (\<lambda>s. enabled s \<and> seg_type s = ''keep'') segments))))"
  by (simp add: export_srt_def Let_def srt_segment_loop render_cues_def cues_from_srt_cues)


text \<open>
  The theorem at two keep segments [5, 10] and [20, 30] and three sentences: the first is
  clipped at the start of the first segment and loses its keyword, the second consists
  of the keyword only and is dropped, the third is shifted by the output offset 5.
\<close>

theorem export_srt_cues_witness:
  "export_srt [ex_seg 1 20 30, ex_seg 0 5 10]
     [ex_sentence ''Hello ok'' 4 6, ex_sentence ''Ok'' 7 8, ex_sentence ''World'' 25 26]
     (Some [''OK'']) =
   ''1\<newline>00:00:00,000 --> 00:00:01,000\<newline>Hello\<newline>\<newline>2\<newline>00:00:10,000 --> 00:00:11,000\<newline>World\<newline>''"
proof -
  have k: "map lower (case Some [''OK''] of None \<Rightarrow> [] | Some ks \<Rightarrow> ks) = [''ok'']"
    by (simp add: lower_def lower_char_def)
  have e: "sort_key seg_start
             (filter (\<lambda>s. enabled s \<and> seg_type s = ''keep'') [ex_seg 1 20 30, ex_seg 0 5 10]) =
           [ex_seg 0 5 10, ex_seg 1 20 30]"
    by (simp add: ex_seg_def new_segment_def)
  have t1: "filtered_text [''ok''] ''Hello ok'' = ''Hello''"
    by (simp add: filtered_text_def strip_def is_space_def lower_char_def)
  have t2: "filtered_text [''ok''] ''Ok'' = []"
    by (simp add: filtered_text_def strip_def is_space_def lower_char_def)
  have t3: "filtered_text [''ok''] ''World'' = ''World''"
    by (simp add: filtered_text_def strip_def is_space_def lower_char_def)
  have c: "srt_cues [''ok'']
             [ex_sentence ''Hello ok'' 4 6, ex_sentence ''Ok'' 7 8, ex_sentence ''World'' 25 26]
             [ex_seg 0 5 10, ex_seg 1 20 30] =
           [(0, 1, ''Hello''), (10, 11, ''World'')]"
    by (simp add: srt_cues_def srt_cue_of_def output_offset_def ex_sentence_def ex_seg_def
        new_segment_def t1 t2 t3 List.map_filter_simps upt_rec [of 0])
  have r: "join newline (render_cues [(0, 1, ''Hello''), (10, 11, ''World'')]) =
   ''1\<newline>00:00:00,000 --> 00:00:01,000\<newline>Hello\<newline>\<newline>2\<newline>00:00:10,000 --> 00:00:11,000\<newline>World\<newline>''"
    by (simp add: render_cues_def srt_entry_def newline_def seconds_to_srt_tc_def py_round_def
        py_mod1_def py_int_def fmt_d_def zfill_def digit_char_def numeral_2_eq_2 enumerate_simps)
  show ?thesis
    using export_srt_cues
      [of "[ex_seg 1 20 30, ex_seg 0 5 10]"
          "[ex_sentence ''Hello ok'' 4 6, ex_sentence ''Ok'' 7 8, ex_sentence ''World'' 25 26]"
          "Some [''OK'']"]
    unfolding k e c r .
qed

text \<open>
  The claim as stated drops a cue whenever removing the keywords and trimming leaves
  nothing. With no filter keyword configured, a sentence consisting of one space
  overlaps the keep segment [0, 10] and is empty after trimming, yet its cue is emitted.
\<close>

theorem export_srt_cues_counterexample:
  "ts_end (ex_sentence '' '' 1 2) > seg_start (ex_seg 0 0 10) \<and>
   ts_start (ex_sentence '' '' 1 2) < seg_end (ex_seg 0 0 10) \<and>
   strip (ts_text (ex_sentence '' '' 1 2)) = [] \<and>
   export_srt [ex_seg 0 0 10] [ex_sentence '' '' 1 2] None =
     ''1\<newline>00:00:01,000 --> 00:00:02,000\<newline> \<newline>''"
  by (simp add: export_srt_def srt_segment_step_def srt_sentence_step_def cue_text_def
      ex_sentence_def ex_seg_def new_segment_def strip_def is_space_def
      srt_entry_def newline_def seconds_to_srt_tc_def py_round_def
      py_mod1_def py_int_def fmt_d_def zfill_def digit_char_def numeral_2_eq_2)

subsection \<open>Marker detection\<close>

lemma py_round_of_int [simp]: "py_round (of_int k) = k"
  by (simp add: py_round_def)

lemma round3_idem [simp]: "round3 (round3 x) = round3 x"
  by (simp add: round3_def)

lemma join_words_ok:
  "\<forall>j \<in> set js. j < length words \<Longrightarrow> \<exists>s. join_words words js = Inr s"
proof (induction js)
  case Nil
  then show ?case by simp
next
  case (Cons j js)
  then obtain s where "join_words words js = Inr s" by auto
  with Cons.prems show ?case by (simp add: get_word_def)
qed

lemma span_loop_ok:
  assumes "start_idx < length words"
    and "\<forall>n \<in> set spans. 1 \<le> n \<and> start_idx + n \<le> length words"
  shows "\<exists>b e s. span_loop ratio words start_idx keyword spans = Inr (b, e, s) \<and>
           e < length words"
  using assms(2)
proof (induction spans)
  case Nil
  with assms(1) show ?case by auto
next
  case (Cons n spans)
  from Cons.prems have n: "1 \<le> n" "start_idx + n \<le> length words" by simp_all
  then have "\<forall>j \<in> set (map (\<lambda>j. start_idx + j) [0..<n]). j < length words" by auto
  from join_words_ok [OF this] obtain combined
    where c: "join_words words (map (\<lambda>j. start_idx + j) [0..<n]) = Inr combined" by blast
  show ?case
  proof (cases "fuzzy_match ratio combined keyword \<ge> FUZZY_THRESHOLD")
    case True
    with c n show ?thesis by auto
  next
    case False
    with c Cons.IH Cons.prems show ?thesis by simp
  qed
qed

lemma check_word_sequence_ok:
  assumes "start_idx < length words"
  shows "\<exists>b e s. check_word_sequence ratio words start_idx keyword = Inr (b, e, s) \<and>
           e < length words"
proof (cases "length keyword \<le> 3")
  case True
  with assms show ?thesis by (simp add: check_word_sequence_def get_word_def)
next
  case False
  have "\<forall>n \<in> set [1..<min 6 (length words - start_idx + 1)].
          1 \<le> n \<and> start_idx + n \<le> length words"
    unfolding set_upt using assms by auto
  from span_loop_ok [OF assms this] False show ?thesis
    by (simp add: check_word_sequence_def)
qed

lemma word_match_ok:
  assumes "i \<le> end_idx" and "end_idx < length words" and "\<forall>m \<in> set markers. marker_ok T m"
    and "mtype \<in> T"
  shows "\<exists>ms. word_match words i word markers mtype end_idx score = Inr ms \<and>
           (\<forall>m \<in> set ms. marker_ok T m)"
proof -
  from assms(2) have "\<forall>j \<in> set [i..<end_idx + 1]. j < length words" by auto
  from join_words_ok [OF this] obtain w where "join_words words [i..<end_idx + 1] = Inr w"
    by blast
  with assms show ?thesis
    by (simp add: word_match_def get_word_def marker_ok_def)
qed

lemma word_keywords_ok:
  assumes "i < length words" and "\<forall>m \<in> set markers. marker_ok T m"
    and "snd ` set keyword_map \<subseteq> T"
  shows "word_keywords ratio words i word markers keyword_map = Inr None \<or>
         (\<exists>e ms. word_keywords ratio words i word markers keyword_map = Inr (Some (e, ms)) \<and>
                  (\<forall>m \<in> set ms. marker_ok T m))"
  using assms(3)
proof (induction keyword_map)
  case Nil
  then show ?case by simp
next
  case (Cons km rest)
  obtain keyword mtype where km: "km = (keyword, mtype)" by (cases km)
  with Cons.prems have mt: "mtype \<in> T" and rest: "snd ` set rest \<subseteq> T" by auto
  from check_word_sequence_ok [OF assms(1)] obtain b e s
    where c: "check_word_sequence ratio words i keyword = Inr (b, e, s)" and e: "e < length words"
    by blast
  show ?case
  proof (cases b)
    case True
    from c have "i \<le> e" by (rule check_word_sequence_end_idx)
    from word_match_ok [OF this e assms(2) mt] obtain ms
      where "word_match words i word markers mtype e s = Inr ms" "\<forall>m \<in> set ms. marker_ok T m"
      by blast
    with c True km show ?thesis by simp
  next
    case False
    with c km Cons.IH [OF rest] show ?thesis by simp
  qed
qed

lemma word_loop_ok:
  "snd ` set keyword_map \<subseteq> T \<Longrightarrow> \<forall>m \<in> set markers. marker_ok T m \<Longrightarrow>
   \<exists>ms. word_loop ratio keyword_map words i markers = Inr ms \<and> (\<forall>m \<in> set ms. marker_ok T m)"
proof (induction ratio keyword_map words i markers rule: word_loop.induct)
  case (1 ratio keyword_map words i markers)
  note km = "1.prems"(1) and inv = "1.prems"(2)
  show ?case
  proof (cases "i < length words")
    case False
    with inv show ?thesis by (simp add: word_loop.simps)
  next
    case True
    then have g: "get_word words i = Inr (words ! i)" by (simp add: get_word_def)
    from word_keywords_ok [OF True inv km, of ratio "words ! i"]
    consider (none) "word_keywords ratio words i (words ! i) markers keyword_map = Inr None"
      | (some) e ms
        where "word_keywords ratio words i (words ! i) markers keyword_map = Inr (Some (e, ms))"
          and "\<forall>m \<in> set ms. marker_ok T m"
      by blast
    then show ?thesis
    proof cases
      case none
      from "1.IH"(1) [OF True g none refl km inv] True g none show ?thesis
        by (subst word_loop.simps) simp
    next
      case some
      from "1.IH"(2) [OF True g some(1) refl refl km some(2)] True g some(1) show ?thesis
        by (subst word_loop.simps) simp
    qed
  qed
qed

lemma word_pass_ok:
  "snd ` set keyword_map \<subseteq> T \<Longrightarrow> \<forall>m \<in> set markers. marker_ok T m \<Longrightarrow>
   \<exists>ms. word_pass ratio keyword_map transcript markers = Inr ms \<and>
        (\<forall>m \<in> set ms. marker_ok T m)"
proof (induction transcript arbitrary: markers)
  case Nil
  then show ?case by simp
next
  case (Cons seg transcript)
  show ?case
  proof (cases "ts_words seg = []")
    case True
    with Cons show ?thesis by simp
  next
    case False
    from word_loop_ok [OF Cons.prems, of ratio "ts_words seg" 0] obtain ms
      where l: "word_loop ratio keyword_map (ts_words seg) 0 markers = Inr ms"
        and ms: "\<forall>m \<in> set ms. marker_ok T m" by blast
    from Cons.IH [OF Cons.prems(1) ms] False l show ?thesis by simp
  qed
qed

lemma sentence_keywords_ok:
  "snd ` set keyword_map \<subseteq> T \<Longrightarrow> \<forall>m \<in> set markers. marker_ok T m \<Longrightarrow>
   \<forall>m \<in> set (sentence_keywords ratio seg_text seg markers keyword_map). marker_ok T m"
proof (induction keyword_map)
  case Nil
  then show ?case by simp
next
  case (Cons km rest)
  obtain keyword mtype where km: "km = (keyword, mtype)" by (cases km)
  with Cons.prems have mt: "mtype \<in> T" and rest: "snd ` set rest \<subseteq> T" by auto
  show ?case
  proof (cases "fuzzy_match ratio seg_text keyword \<ge> FUZZY_THRESHOLD")
    case True
    with km mt Cons.prems(2) show ?thesis by (simp add: marker_ok_def)
  next
    case False
    with km Cons.IH [OF rest Cons.prems(2)] show ?thesis by simp
  qed
qed

lemma sentence_pass_ok:
  "snd ` set keyword_map \<subseteq> T \<Longrightarrow> \<forall>m \<in> set markers. marker_ok T m \<Longrightarrow>
   \<forall>m \<in> set (sentence_pass ratio keyword_map transcript markers). marker_ok T m"
  unfolding sentence_pass_def
proof (induction transcript arbitrary: markers)
  case Nil
  then show ?case by simp
next
  case (Cons seg transcript)
  from sentence_keywords_ok [OF Cons.prems]
  have "\<forall>m \<in> set (sentence_keywords ratio (strip (ts_text seg)) seg markers keyword_map).
          marker_ok T m" .
  from Cons.IH [OF Cons.prems(1) this] show ?case by simp
qed

lemma detect_markers_ok:
  assumes "T = snd ` set (keyword_map_of ng ok
              (case st of None \<Rightarrow> [] | Some ks \<Rightarrow> ks) (case en of None \<Rightarrow> [] | Some ks \<Rightarrow> ks))"
  shows "\<exists>ms. detect_markers ratio transcript ng ok st en = Inr ms \<and>
           sorted (map m_start ms) \<and> (\<forall>m \<in> set ms. marker_ok T m)"
proof -
  let ?km = "keyword_map_of ng ok
              (case st of None \<Rightarrow> [] | Some ks \<Rightarrow> ks) (case en of None \<Rightarrow> [] | Some ks \<Rightarrow> ks)"
  have km: "snd ` set ?km \<subseteq> T" using assms by simp
  have "\<forall>m \<in> set (sentence_pass ratio ?km transcript []). marker_ok T m"
    by (rule sentence_pass_ok [OF km]) simp
  from word_pass_ok [OF km this] obtain ms
    where w: "word_pass ratio ?km transcript (sentence_pass ratio ?km transcript []) = Inr ms"
      and ms: "\<forall>m \<in> set ms. marker_ok T m" by blast
  from w have "detect_markers ratio transcript ng ok st en = Inr (sort_key m_start ms)"
    by (simp add: detect_markers_def Let_def)
  moreover have "sorted (map m_start (sort_key m_start ms))" by (rule sorted_sort_key)
  moreover from ms have "\<forall>m \<in> set (sort_key m_start ms). marker_ok T m" by simp
  ultimately show ?thesis by blast
qed

lemma detect_markers_empty_transcript:
  "detect_markers ratio [] ng ok st en = Inr []"
  by (simp add: detect_markers_def sentence_pass_def)

lemma keyword_map_types:
  "NG \<in> snd ` set (keyword_map_of ng ok st en) \<Longrightarrow> ng \<noteq> []"
  "OK \<in> snd ` set (keyword_map_of ng ok st en) \<Longrightarrow> ok \<noteq> []"
  "START \<in> snd ` set (keyword_map_of ng ok st en) \<Longrightarrow> st \<noteq> []"
  "END \<in> snd ` set (keyword_map_of ng ok st en) \<Longrightarrow> en \<noteq> []"
  by (auto simp: keyword_map_of_def)

text \<open>
  Claim C7. For every transcript, every configuration of the four keyword lists and
  every similarity ratio, \<open>detect_markers\<close> returns a marker list: the loops terminate
  (the model is a total function) and no index leaves a word list (the result is never
  \<open>Inl IndexError\<close>). The list is sorted ascending by start, every confidence in it is
  a value rounded to three decimals, an empty transcript gives no marker, and an empty
  (or absent) keyword category gives no marker of its type.
\<close>

theorem detect_markers_safe:
  "\<exists>markers. detect_markers ratio transcript ng_keywords ok_keywords start_keywords end_keywords =
                Inr markers \<and>
     sorted (map m_start markers) \<and>
     (\<forall>m \<in> set markers. round3 (m_confidence m) = m_confidence m) \<and>
     (transcript = [] \<longrightarrow> markers = []) \<and>
     (ng_keywords = [] \<longrightarrow> (\<forall>m \<in> set markers. m_type m \<noteq> NG)) \<and>
     (ok_keywords = [] \<longrightarrow> (\<forall>m \<in> set markers. m_type m \<noteq> OK)) \<and>
     (start_keywords \<in> {None, Some []} \<longrightarrow> (\<forall>m \<in> set markers. m_type m \<noteq> START)) \<and>
     (end_keywords \<in> {None, Some []} \<longrightarrow> (\<forall>m \<in> set markers. m_type m \<noteq> END))"
proof -
  let ?st = "case start_keywords of None \<Rightarrow> [] | Some ks \<Rightarrow> ks"
  let ?en = "case end_keywords of None \<Rightarrow> [] | Some ks \<Rightarrow> ks"
  let ?T = "snd ` set (keyword_map_of ng_keywords ok_keywords ?st ?en)"
  from detect_markers_ok [OF refl, of ratio transcript ng_keywords ok_keywords start_keywords
      end_keywords]
  obtain ms
    where d: "detect_markers ratio transcript ng_keywords ok_keywords start_keywords end_keywords =
                Inr ms"
      and s: "sorted (map m_start ms)" and ok: "\<forall>m \<in> set ms. marker_ok ?T m" by blast
  have c: "\<forall>m \<in> set ms. round3 (m_confidence m) = m_confidence m"
    using ok by (simp add: marker_ok_def)
  have t: "\<forall>m \<in> set ms. m_type m \<in> ?T" using ok by (simp add: marker_ok_def)
  have e: "transcript = [] \<longrightarrow> ms = []"
    using d by (auto simp: detect_markers_empty_transcript)
  have ng: "ng_keywords = [] \<longrightarrow> (\<forall>m \<in> set ms. m_type m \<noteq> NG)"
    using t keyword_map_types(1) [of ng_keywords ok_keywords ?st ?en] by metis
  have okk: "ok_keywords = [] \<longrightarrow> (\<forall>m \<in> set ms. m_type m \<noteq> OK)"
    using t keyword_map_types(2) [of ng_keywords ok_keywords ?st ?en] by metis
  have "?st = [] \<longrightarrow> (\<forall>m \<in> set ms. m_type m \<noteq> START)"
    using t keyword_map_types(3) [of ng_keywords ok_keywords ?st ?en] by metis
  then have st: "start_keywords \<in> {None, Some []} \<longrightarrow> (\<forall>m \<in> set ms. m_type m \<noteq> START)"
    by auto
  have "?en = [] \<longrightarrow> (\<forall>m \<in> set ms. m_type m \<noteq> END)"
    using t keyword_map_types(4) [of ng_keywords ok_keywords ?st ?en] by metis
  then have en: "end_keywords \<in> {None, Some []} \<longrightarrow> (\<forall>m \<in> set ms. m_type m \<noteq> END)"
    by auto
  from d s c e ng okk st en show ?thesis by blast
qed


text \<open>
  The theorem at a transcript of three sentences, with NG and OK keywords (one of them
  longer than three characters, so that the word window is used) and no START or END
  keywords.
\<close>

theorem detect_markers_safe_witness:
  "detect_markers ex_ratio ex_transcript [''NG''] [''OK'', ''is ok''] None None = Inr ex_detected \<and>
   sorted (map m_start ex_detected) \<and>
   list_all (\<lambda>m. round3 (m_confidence m) = m_confidence m) ex_detected \<and>
   list_all (\<lambda>m. m_type m \<noteq> START \<and> m_type m \<noteq> END) ex_detected"
proof -
  have e: "detect_markers ex_ratio ex_transcript [''NG''] [''OK'', ''is ok''] None None =
             Inr ex_detected"
    by code_simp
  from detect_markers_safe [of ex_ratio ex_transcript "[''NG'']" "[''OK'', ''is ok'']" None None]
  obtain markers
    where "detect_markers ex_ratio ex_transcript [''NG''] [''OK'', ''is ok''] None None =
             Inr markers"
      and "sorted (map m_start markers)"
      and "\<forall>m \<in> set markers. round3 (m_confidence m) = m_confidence m"
      and "\<forall>m \<in> set markers. m_type m \<noteq> START"
      and "\<forall>m \<in> set markers. m_type m \<noteq> END"
    by auto
  with e show ?thesis by (simp add: list_all_iff)
qed

end
